theory Spec2Isabelle
  imports Main "HOL-Library.AList" "HOL-Library.Multiset" "HOL-Library.Sublist"
begin

text \<open>
  A model of \<^verbatim>\<open>main.py\<close>, a bot that polls the feed of each monitored Twitter
  account and forwards the new tweets to a Telegram chat: the configuration manager
  with its account list and watermarks, the fetch with its handling of failures and
  rate limits, the per-account pipeline \<^verbatim>\<open>check_account\<close> and the monitoring
  loop. The definitions come first, the facts about them after.
\<close>

section \<open>Values of the program\<close>

text \<open>
  The bot keeps its configuration, the account entries and the tweets as the plain
  dictionaries, lists and scalars that \<^verbatim>\<open>json.load\<close> and the HTTP client hand
  back, so every value is modelled as a JSON value. A dictionary is an association list
  in insertion order whose keys are distinct; lookups read the first binding.
  Strings are lists of code points below 256. Floating-point numbers are left out.
\<close>

datatype json =
    JNull
  | JBool bool
  | JInt int
  | JStr string
  | JList "json list"
  | JObj "(string \<times> json) list"

text \<open>The exceptions the modelled code can raise, as values.\<close>

datatype py_error =
    KeyError
  | TypeError
  | AttributeError
  | ValueError
  | OverflowError
  | OSError
  | JSONDecodeError
  | ClientError
  | TelegramError

type_synonym config = "(string \<times> json) list"

subsection \<open>Python operations on these values\<close>

text \<open>Truth value of an object, as \<^verbatim>\<open>if tweets:\<close> and \<^verbatim>\<open>if since_id:\<close> test it.\<close>

fun truthy :: "json \<Rightarrow> bool" where
  "truthy JNull = False"
| "truthy (JBool b) = b"
| "truthy (JInt n) = (n \<noteq> 0)"
| "truthy (JStr s) = (s \<noteq> [])"
| "truthy (JList xs) = (xs \<noteq> [])"
| "truthy (JObj kvs) = (kvs \<noteq> [])"

text \<open>\<^verbatim>\<open>d[k]\<close> on the configuration dictionary.\<close>

definition dict_get :: "config \<Rightarrow> string \<Rightarrow> py_error + json" where
  "dict_get d k = (case map_of d k of None \<Rightarrow> Inl KeyError | Some v \<Rightarrow> Inr v)"

text \<open>\<^verbatim>\<open>x[k]\<close> with a string key \<open>k\<close>: only a dictionary can be subscripted so.\<close>

fun getitem :: "json \<Rightarrow> string \<Rightarrow> py_error + json" where
  "getitem (JObj kvs) k = dict_get kvs k"
| "getitem _ k = Inl TypeError"

text \<open>\<^verbatim>\<open>x[k] = v\<close> with a string key.\<close>

fun setitem :: "json \<Rightarrow> string \<Rightarrow> json \<Rightarrow> py_error + json" where
  "setitem (JObj kvs) k v = Inr (JObj (AList.update k v kvs))"
| "setitem _ k v = Inl TypeError"

text \<open>\<^verbatim>\<open>x.get(k, default)\<close>: only dictionaries have the method.\<close>

fun get_method :: "json \<Rightarrow> string \<Rightarrow> json \<Rightarrow> py_error + json" where
  "get_method (JObj kvs) k dflt = Inr (case map_of kvs k of None \<Rightarrow> dflt | Some v \<Rightarrow> v)"
| "get_method _ k dflt = Inl AttributeError"

text \<open>Iteration \<^verbatim>\<open>for x in v\<close>, and \<^verbatim>\<open>len(v)\<close>.\<close>

fun py_iter :: "json \<Rightarrow> py_error + json list" where
  "py_iter (JList xs) = Inr xs"
| "py_iter (JStr s) = Inr (map (\<lambda>c. JStr [c]) s)"
| "py_iter (JObj kvs) = Inr (map (\<lambda>kv. JStr (fst kv)) kvs)"
| "py_iter _ = Inl TypeError"

fun py_len :: "json \<Rightarrow> py_error + nat" where
  "py_len (JList xs) = Inr (length xs)"
| "py_len (JStr s) = Inr (length s)"
| "py_len (JObj kvs) = Inr (length kvs)"
| "py_len _ = Inl TypeError"

text \<open>\<^verbatim>\<open>v.append(x)\<close>: only lists have the method.\<close>

fun append_method :: "json \<Rightarrow> json \<Rightarrow> py_error + json" where
  "append_method (JList xs) x = Inr (JList (xs @ [x]))"
| "append_method _ x = Inl AttributeError"

text \<open>
  \<^verbatim>\<open>str.lower()\<close> on code points below 256: the letters A to Z and the accented
  capitals 192 to 222 (but not the multiplication sign 215) move up by 32.
\<close>

definition lower_char :: "char \<Rightarrow> char" where
  "lower_char c =
     (let n = (of_char c :: nat)
      in if (65 \<le> n \<and> n \<le> 90) \<or> (192 \<le> n \<and> n \<le> 222 \<and> n \<noteq> 215)
         then char_of (n + 32) else c)"

definition lower :: "string \<Rightarrow> string" where
  "lower s = map lower_char s"

fun lower_method :: "json \<Rightarrow> py_error + string" where
  "lower_method (JStr s) = Inr (lower s)"
| "lower_method _ = Inl AttributeError"

text \<open>
  \<^verbatim>\<open>int(x)\<close>. A string is stripped of white space, may carry one sign, and is a run of
  decimal digits in which single underscores may stand between two digits. The
  interpreter refuses, with the same \<^verbatim>\<open>ValueError\<close>, a string of more than 4300
  digits (its default bound; leading zeros count, underscores do not). The JSON parser
  reads integers with \<^verbatim>\<open>int\<close> too, so the integers among the values have at most that
  many digits.
\<close>

definition is_space :: "char \<Rightarrow> bool" where
  "is_space c = ((of_char c :: nat) \<in> {9, 10, 11, 12, 13, 32, 133, 160})"

definition strip :: "string \<Rightarrow> string" where
  "strip s = rev (dropWhile is_space (rev (dropWhile is_space s)))"

definition digit_val :: "char \<Rightarrow> nat option" where
  "digit_val c =
     (let n = (of_char c :: nat) in if 48 \<le> n \<and> n \<le> 57 then Some (n - 48) else None)"

fun digits :: "bool \<Rightarrow> nat \<Rightarrow> string \<Rightarrow> nat option" where
  "digits after_digit acc [] = (if after_digit then Some acc else None)"
| "digits after_digit acc (c # cs) =
     (if c = CHR ''_'' then (if after_digit \<and> cs \<noteq> [] then digits False acc cs else None)
      else case digit_val c of
             None \<Rightarrow> None
           | Some d \<Rightarrow> digits True (10 * acc + d) cs)"

definition max_str_digits :: nat where
  "max_str_digits = 4300"

definition int_of_str :: "string \<Rightarrow> int option" where
  "int_of_str s =
     (case strip s of
        [] \<Rightarrow> None
      | c # cs \<Rightarrow>
          if max_str_digits
               < length (filter (\<lambda>d. d \<noteq> CHR ''_'')
                           (if c = CHR ''-'' \<or> c = CHR ''+'' then cs else c # cs))
          then None
          else if c = CHR ''-'' then map_option (\<lambda>n. - int n) (digits False 0 cs)
          else if c = CHR ''+'' then map_option int (digits False 0 cs)
          else map_option int (digits False 0 (c # cs)))"

fun py_int :: "json \<Rightarrow> py_error + int" where
  "py_int (JInt n) = Inr n"
| "py_int (JBool b) = Inr (if b then 1 else 0)"
| "py_int (JStr s) = (case int_of_str s of None \<Rightarrow> Inl ValueError | Some n \<Rightarrow> Inr n)"
| "py_int _ = Inl TypeError"

text \<open>
  A generator or comprehension over a list evaluates its test element by element and
  stops at the first exception; \<^verbatim>\<open>any\<close> also stops at the first true test.
\<close>

fun py_any :: "('a \<Rightarrow> py_error + bool) \<Rightarrow> 'a list \<Rightarrow> py_error + bool" where
  "py_any p [] = Inr False"
| "py_any p (x # xs) =
     (case p x of
        Inl e \<Rightarrow> Inl e
      | Inr b \<Rightarrow> if b then Inr True else py_any p xs)"

fun py_filter :: "('a \<Rightarrow> py_error + bool) \<Rightarrow> 'a list \<Rightarrow> py_error + 'a list" where
  "py_filter p [] = Inr []"
| "py_filter p (x # xs) =
     (case p x of
        Inl e \<Rightarrow> Inl e
      | Inr b \<Rightarrow>
          (case py_filter p xs of
             Inl e \<Rightarrow> Inl e
           | Inr ys \<Rightarrow> Inr (if b then x # ys else ys)))"

fun py_map :: "('a \<Rightarrow> py_error + 'b) \<Rightarrow> 'a list \<Rightarrow> py_error + 'b list" where
  "py_map f [] = Inr []"
| "py_map f (x # xs) =
     (case f x of
        Inl e \<Rightarrow> Inl e
      | Inr y \<Rightarrow>
          (case py_map f xs of
             Inl e \<Rightarrow> Inl e
           | Inr ys \<Rightarrow> Inr (y # ys)))"

subsection \<open>Serialisation: \<^verbatim>\<open>json.dumps(value, indent=2)\<close>\<close>

definition hex_digit :: "nat \<Rightarrow> char" where
  "hex_digit n = (if n < 10 then char_of (48 + n) else char_of (87 + n))"

definition escape_char :: "char \<Rightarrow> string" where
  "escape_char c =
     (let n = (of_char c :: nat)
      in if c = CHR ''\"'' then [CHR 0x5C, CHR ''\"'']
         else if n = 92 then [CHR 0x5C, CHR 0x5C]
         else if n = 8 then [CHR 0x5C, CHR ''b'']
         else if n = 12 then [CHR 0x5C, CHR ''f'']
         else if n = 10 then [CHR 0x5C, CHR ''n'']
         else if n = 13 then [CHR 0x5C, CHR ''r'']
         else if n = 9 then [CHR 0x5C, CHR ''t'']
         else if 32 \<le> n \<and> n \<le> 126 then [c]
         else [CHR 0x5C, CHR ''u'', CHR ''0'', CHR ''0'', hex_digit (n div 16), hex_digit (n mod 16)])"

definition dumps_str :: "string \<Rightarrow> string" where
  "dumps_str s = [CHR ''\"''] @ concat (map escape_char s) @ [CHR ''\"'']"

fun dumps_nat :: "nat \<Rightarrow> string" where
  "dumps_nat n = (if n < 10 then [char_of (48 + n)] else dumps_nat (n div 10) @ [char_of (48 + n mod 10)])"

definition dumps_int :: "int \<Rightarrow> string" where
  "dumps_int i = (if i < 0 then CHR ''-'' # dumps_nat (nat (- i)) else dumps_nat (nat i))"

fun join :: "string \<Rightarrow> string list \<Rightarrow> string" where
  "join sep [] = []"
| "join sep [x] = x"
| "join sep (x # y # ys) = x @ sep @ join sep (y # ys)"

definition newline_indent :: "nat \<Rightarrow> string" where
  "newline_indent level = CHR 0x0A # replicate (2 * level) CHR '' ''"

fun dumps_at :: "nat \<Rightarrow> json \<Rightarrow> string" where
  "dumps_at level JNull = ''null''"
| "dumps_at level (JBool b) = (if b then ''true'' else ''false'')"
| "dumps_at level (JInt i) = dumps_int i"
| "dumps_at level (JStr s) = dumps_str s"
| "dumps_at level (JList xs) =
     (if xs = [] then ''[]''
      else ''['' @ newline_indent (Suc level)
           @ join ('','' @ newline_indent (Suc level)) (map (dumps_at (Suc level)) xs)
           @ newline_indent level @ '']'')"
| "dumps_at level (JObj kvs) =
     (if kvs = [] then ''{}''
      else ''{'' @ newline_indent (Suc level)
           @ join ('','' @ newline_indent (Suc level))
               (map (\<lambda>kv. dumps_str (fst kv) @ '': '' @ dumps_at (Suc level) (snd kv)) kvs)
           @ newline_indent level @ ''}'')"

definition dumps :: "json \<Rightarrow> string" where
  "dumps v = dumps_at 0 v"

section \<open>ConfigManager\<close>

subsection \<open>Loading and saving\<close>

text \<open>
  What \<^verbatim>\<open>_load_config\<close> finds on disk: no file, a file that cannot be opened, a
  file whose content \<^verbatim>\<open>json.load\<close> rejects, or a file that parses to a value.
\<close>

datatype config_file =
    Missing
  | Unreadable
  | Malformed
  | Parsed json

definition default_config :: config where
  "default_config = [(''monitored_accounts'', JList []), (''check_interval'', JInt 60)]"

text \<open>
  \<^verbatim>\<open>{**default_config, **config}\<close>: the keys of the left dictionary keep their
  places and take the right one's values, new keys follow in the right one's order.
  Unpacking anything but a dictionary raises.
\<close>

definition dict_merge :: "config \<Rightarrow> config \<Rightarrow> config" where
  "dict_merge d1 d2 = fold (\<lambda>kv d. AList.update (fst kv) (snd kv) d) d2 d1"

fun unpack_over :: "config \<Rightarrow> json \<Rightarrow> py_error + config" where
  "unpack_over d (JObj kvs) = Inr (dict_merge d kvs)"
| "unpack_over d _ = Inl TypeError"

text \<open>The body of the \<^verbatim>\<open>try\<close> block, entered when the file exists.\<close>

fun load_config_try :: "config_file \<Rightarrow> py_error + config" where
  "load_config_try Missing = Inl OSError"
| "load_config_try Unreadable = Inl OSError"
| "load_config_try Malformed = Inl JSONDecodeError"
| "load_config_try (Parsed v) = unpack_over default_config v"

definition load_config :: "config_file \<Rightarrow> config" where
  "load_config file =
     (if file \<noteq> Missing then
        (case load_config_try file of
           Inr merged \<Rightarrow> merged
         | Inl e \<Rightarrow> default_config)
      else default_config)"

text \<open>
  \<^verbatim>\<open>save_config\<close> opens the file for writing, which empties it, and writes the
  serialised configuration. The write may succeed, the open may fail and leave the file
  as it was, or the write may stop after some characters. The in-memory configuration
  is only read. The result is the file content afterwards and whether an error was
  logged.
\<close>

datatype write_outcome =
    Write_ok
  | Open_fails
  | Write_fails nat

definition save_config :: "write_outcome \<Rightarrow> config \<Rightarrow> string option \<Rightarrow> string option \<times> py_error option" where
  "save_config outcome cfg disk =
     (case outcome of
        Write_ok \<Rightarrow> (Some (dumps (JObj cfg)), None)
      | Open_fails \<Rightarrow> (disk, Some OSError)
      | Write_fails n \<Rightarrow> (Some (take n (dumps (JObj cfg))), Some OSError))"

subsection \<open>The account list\<close>

text \<open>\<^verbatim>\<open>acc["username"].lower() == username.lower()\<close>, the left side evaluated first.\<close>

definition same_handle :: "json \<Rightarrow> json \<Rightarrow> py_error + bool" where
  "same_handle name acc =
     (case getitem acc ''username'' of
        Inl e \<Rightarrow> Inl e
      | Inr u \<Rightarrow>
          (case lower_method u of
             Inl e \<Rightarrow> Inl e
           | Inr l \<Rightarrow>
               (case lower_method name of
                  Inl e \<Rightarrow> Inl e
                | Inr r \<Rightarrow> Inr (l = r))))"

definition other_handle :: "json \<Rightarrow> json \<Rightarrow> py_error + bool" where
  "other_handle name acc =
     (case same_handle name acc of
        Inl e \<Rightarrow> Inl e
      | Inr b \<Rightarrow> Inr (\<not> b))"

definition new_account :: "string \<Rightarrow> json \<Rightarrow> json" where
  "new_account name uid =
     JObj [(''username'', JStr name), (''user_id'', uid), (''last_tweet_id'', JNull)]"

text \<open>
  \<^verbatim>\<open>add_account\<close> returns its boolean and the configuration after the call; an
  exception leaves the configuration as it was.
\<close>

definition add_account :: "config \<Rightarrow> string \<Rightarrow> json \<Rightarrow> py_error + (bool \<times> config)" where
  "add_account cfg name uid =
     (case dict_get cfg ''monitored_accounts'' of
        Inl e \<Rightarrow> Inl e
      | Inr accs \<Rightarrow>
          (case py_iter accs of
             Inl e \<Rightarrow> Inl e
           | Inr xs \<Rightarrow>
               (case py_any (same_handle (JStr name)) xs of
                  Inl e \<Rightarrow> Inl e
                | Inr found \<Rightarrow>
                    if found then Inr (False, cfg)
                    else (case append_method accs (new_account name uid) of
                            Inl e \<Rightarrow> Inl e
                          | Inr accs' \<Rightarrow>
                              Inr (True, AList.update ''monitored_accounts'' accs' cfg)))))"

definition remove_account :: "config \<Rightarrow> string \<Rightarrow> py_error + (bool \<times> config)" where
  "remove_account cfg name =
     (case dict_get cfg ''monitored_accounts'' of
        Inl e \<Rightarrow> Inl e
      | Inr accs \<Rightarrow>
          (case py_len accs of
             Inl e \<Rightarrow> Inl e
           | Inr original_count \<Rightarrow>
               (case py_iter accs of
                  Inl e \<Rightarrow> Inl e
                | Inr xs \<Rightarrow>
                    (case py_filter (other_handle (JStr name)) xs of
                       Inl e \<Rightarrow> Inl e
                     | Inr kept \<Rightarrow>
                         Inr (length kept < original_count,
                              AList.update ''monitored_accounts'' (JList kept) cfg)))))"

text \<open>
  \<^verbatim>\<open>TwitterAccount(**acc)\<close>: the entry must be a dictionary with the keys
  \<^verbatim>\<open>username\<close> and \<^verbatim>\<open>user_id\<close>, optionally \<^verbatim>\<open>last_tweet_id\<close>, and no other.
\<close>

record twitter_account =
  username :: json
  user_id :: json
  last_tweet_id :: json

fun unpack_account :: "json \<Rightarrow> py_error + twitter_account" where
  "unpack_account (JObj kvs) =
     (if list_all (\<lambda>kv. fst kv \<in> {''username'', ''user_id'', ''last_tweet_id''}) kvs
      then (case map_of kvs ''username'' of
              None \<Rightarrow> Inl TypeError
            | Some u \<Rightarrow>
                (case map_of kvs ''user_id'' of
                   None \<Rightarrow> Inl TypeError
                 | Some i \<Rightarrow>
                     Inr \<lparr>username = u, user_id = i,
                          last_tweet_id = (case map_of kvs ''last_tweet_id'' of
                                             None \<Rightarrow> JNull
                                           | Some w \<Rightarrow> w)\<rparr>))
      else Inl TypeError)"
| "unpack_account _ = Inl TypeError"

definition get_accounts :: "config \<Rightarrow> py_error + twitter_account list" where
  "get_accounts cfg =
     (case dict_get cfg ''monitored_accounts'' of
        Inl e \<Rightarrow> Inl e
      | Inr accs \<Rightarrow>
          (case py_iter accs of
             Inl e \<Rightarrow> Inl e
           | Inr xs \<Rightarrow> py_map unpack_account xs))"

text \<open>
  The loop of \<^verbatim>\<open>update_last_tweet\<close>: the first entry with the handle gets the
  new \<^verbatim>\<open>last_tweet_id\<close>, and the loop stops there.
\<close>

fun update_first :: "json \<Rightarrow> json \<Rightarrow> json list \<Rightarrow> py_error + json list" where
  "update_first name tweet_id [] = Inr []"
| "update_first name tweet_id (acc # rest) =
     (case same_handle name acc of
        Inl e \<Rightarrow> Inl e
      | Inr b \<Rightarrow>
          if b then
            (case setitem acc ''last_tweet_id'' tweet_id of
               Inl e \<Rightarrow> Inl e
             | Inr acc' \<Rightarrow> Inr (acc' # rest))
          else
            (case update_first name tweet_id rest of
               Inl e \<Rightarrow> Inl e
             | Inr rest' \<Rightarrow> Inr (acc # rest')))"

text \<open>
  The entries are changed in place, so a list in the configuration holds the changed
  entry afterwards; iterating a string or the keys of a dictionary yields fresh strings,
  which no assignment reaches.
\<close>

definition update_last_tweet :: "config \<Rightarrow> json \<Rightarrow> json \<Rightarrow> py_error + config" where
  "update_last_tweet cfg name tweet_id =
     (case dict_get cfg ''monitored_accounts'' of
        Inl e \<Rightarrow> Inl e
      | Inr accs \<Rightarrow>
          (case py_iter accs of
             Inl e \<Rightarrow> Inl e
           | Inr xs \<Rightarrow>
               (case update_first name tweet_id xs of
                  Inl e \<Rightarrow> Inl e
                | Inr xs' \<Rightarrow>
                    Inr (case accs of
                           JList _ \<Rightarrow> AList.update ''monitored_accounts'' (JList xs') cfg
                         | _ \<Rightarrow> cfg))))"

section \<open>Effects and the environment\<close>

text \<open>
  What the bot does to the outside world is recorded as a list of events in the order
  of occurrence: a request to the feed for a user id with the \<^verbatim>\<open>since_id\<close>
  parameter if one was sent, a message accepted by Telegram (chat, handle and the tweet
  the text was rendered from), a sleep of so many seconds, and log entries.
\<close>

datatype event =
    Http_get json "json option"
  | Telegram_message json json json
  | Sleep int
  | Log_warning
  | Log_error

text \<open>
  What the outside world answers is a parameter: the feed answers a request with a
  transport failure or with a status and a body (\<open>None\<close> when the body is not JSON),
  Telegram accepts or rejects a message, and the write of the configuration file ends
  in one of the three ways above.
\<close>

datatype http_outcome =
    Request_fails
  | Response nat "json option"

record env =
  http :: "json \<Rightarrow> json option \<Rightarrow> http_outcome"
  telegram :: "json \<Rightarrow> json \<Rightarrow> json \<Rightarrow> bool"
  disk_write :: write_outcome

text \<open>
  A coroutine ends by returning or by raising; either way the changes it made so far
  stay.
\<close>

datatype 'a outcome =
    Returned 'a
  | Raised py_error 'a

fun finished :: "'a outcome \<Rightarrow> 'a" where
  "finished (Returned s) = s"
| "finished (Raised e s) = s"

fun emit_before :: "event list \<Rightarrow> (config \<times> event list) outcome \<Rightarrow> (config \<times> event list) outcome" where
  "emit_before evs (Returned s) = Returned (fst s, evs @ snd s)"
| "emit_before evs (Raised e s) = Raised e (fst s, evs @ snd s)"

section \<open>TwitterMonitor\<close>

definition get_recent_tweets :: "(json \<Rightarrow> json option \<Rightarrow> http_outcome) \<Rightarrow> json \<Rightarrow> json \<Rightarrow> json \<times> event list" where
  "get_recent_tweets feed uid since_id =
     (let since = (if truthy since_id then Some since_id else None);
          request = Http_get uid since
      in case feed uid since of
           Request_fails \<Rightarrow> (JList [], [request, Log_error])
         | Response status body \<Rightarrow>
             if status = 200 then
               (case body of
                  None \<Rightarrow> (JList [], [request, Log_error])
                | Some data \<Rightarrow>
                    (case get_method data ''data'' (JList []) of
                       Inl e \<Rightarrow> (JList [], [request, Log_error])
                     | Inr tweets \<Rightarrow> (tweets, [request])))
             else if status = 429 then (JList [], [request, Log_warning, Sleep 60])
             else (JList [], [request, Log_error]))"

section \<open>The delivery pipeline\<close>

text \<open>
  \<^verbatim>\<open>send_tweet_to_telegram\<close> renders the message from the tweet and the handle
  and sends it; every exception on the way is caught and logged, and the function
  returns nothing in both cases. The rendered text is a function of the tweet and the
  handle, so the event keeps these two in its place.
\<close>

definition send_tweet_to_telegram :: "(json \<Rightarrow> json \<Rightarrow> json \<Rightarrow> bool) \<Rightarrow> json \<Rightarrow> json \<Rightarrow> json \<Rightarrow> event list" where
  "send_tweet_to_telegram tg tweet name chat_id =
     (case get_method tweet ''text'' (JStr []) of
        Inl e \<Rightarrow> [Log_error]
      | Inr body \<Rightarrow>
          if tg chat_id name tweet then [Telegram_message chat_id name tweet]
          else [Log_error])"

text \<open>
  \<^verbatim>\<open>tweets.sort(key=lambda x: int(x["id"]))\<close>: the keys are computed once, in list
  order, and the sort is stable.
\<close>

definition tweet_key :: "json \<Rightarrow> py_error + int" where
  "tweet_key x =
     (case getitem x ''id'' of
        Inl e \<Rightarrow> Inl e
      | Inr v \<Rightarrow> py_int v)"

fun sort_method :: "json \<Rightarrow> py_error + json list" where
  "sort_method (JList xs) =
     (case py_map tweet_key xs of
        Inl e \<Rightarrow> Inl e
      | Inr keys \<Rightarrow> Inr (map snd (sort_key fst (zip keys xs))))"
| "sort_method _ = Inl AttributeError"

text \<open>The \<^verbatim>\<open>for tweet in tweets\<close> loop of \<^verbatim>\<open>check_account\<close>.\<close>

fun check_account_loop :: "(json \<Rightarrow> json \<Rightarrow> json \<Rightarrow> bool) \<Rightarrow> twitter_account \<Rightarrow> json \<Rightarrow> json list \<Rightarrow> config \<Rightarrow> (config \<times> event list) outcome" where
  "check_account_loop tg account chat_id [] cfg = Returned (cfg, [])"
| "check_account_loop tg account chat_id (tweet # rest) cfg =
     (let sent = send_tweet_to_telegram tg tweet (username account) chat_id
      in case getitem tweet ''id'' of
           Inl e \<Rightarrow> Raised e (cfg, sent)
         | Inr tweet_id \<Rightarrow>
             (case update_last_tweet cfg (username account) tweet_id of
                Inl e \<Rightarrow> Raised e (cfg, sent)
              | Inr cfg' \<Rightarrow>
                  emit_before (sent @ [Sleep 1])
                    (check_account_loop tg account chat_id rest cfg')))"

text \<open>The \<^verbatim>\<open>try\<close> block of \<^verbatim>\<open>check_account\<close>, and the function with its handler.\<close>

definition check_account_try :: "env \<Rightarrow> twitter_account \<Rightarrow> json \<Rightarrow> config \<Rightarrow> (config \<times> event list) outcome" where
  "check_account_try e account chat_id cfg =
     (case get_recent_tweets (http e) (user_id account) (last_tweet_id account) of
        (tweets, fetched) \<Rightarrow>
          if truthy tweets then
            (case sort_method tweets of
               Inl err \<Rightarrow> Raised err (cfg, fetched)
             | Inr ordered \<Rightarrow>
                 emit_before fetched (check_account_loop (telegram e) account chat_id ordered cfg))
          else Returned (cfg, fetched))"

definition check_account :: "env \<Rightarrow> twitter_account \<Rightarrow> json \<Rightarrow> config \<Rightarrow> (config \<times> event list) outcome" where
  "check_account e account chat_id cfg =
     (case check_account_try e account chat_id cfg of
        Returned s \<Rightarrow> Returned s
      | Raised err s \<Rightarrow> Returned (fst s, snd s @ [Log_error]))"

section \<open>The monitoring loop\<close>

text \<open>
  \<^verbatim>\<open>asyncio.gather(..., return_exceptions=True)\<close> over the accounts of the round.
  The tasks are run to the end one after the other in list order; a task that raised
  would be collected like one that returned.
\<close>

fun gather :: "env \<Rightarrow> json \<Rightarrow> twitter_account list \<Rightarrow> config \<Rightarrow> config \<times> event list" where
  "gather e chat_id [] cfg = (cfg, [])"
| "gather e chat_id (account # rest) cfg =
     (case finished (check_account e account chat_id cfg) of
        (cfg', evs) \<Rightarrow>
          (case gather e chat_id rest cfg' of
             (cfg'', evs') \<Rightarrow> (cfg'', evs @ evs')))"

text \<open>
  \<^verbatim>\<open>asyncio.sleep(delay)\<close> needs a number, and a positive integer that no float can
  hold (from \<open>2 ^ 1024 - 2 ^ 970\<close> on) overflows when the timer is set.
\<close>

fun sleep :: "json \<Rightarrow> py_error + event" where
  "sleep (JInt n) = (if 2 ^ 1024 - 2 ^ 970 \<le> n then Inl OverflowError else Inr (Sleep n))"
| "sleep (JBool b) = Inr (Sleep (if b then 1 else 0))"
| "sleep _ = Inl TypeError"

record world =
  config :: config
  disk :: "string option"
  trace :: "event list"

text \<open>
  One pass of the \<^verbatim>\<open>while is_monitoring\<close> loop; its handler logs any exception
  and sleeps ten seconds.
\<close>

definition monitoring_round_try :: "env \<Rightarrow> json \<Rightarrow> world \<Rightarrow> world outcome" where
  "monitoring_round_try e chat_id w =
     (case get_accounts (config w) of
        Inl err \<Rightarrow> Raised err w
      | Inr accounts \<Rightarrow>
          (let w1 =
             (if accounts \<noteq> [] then
                (case gather e chat_id accounts (config w) of
                   (cfg', evs) \<Rightarrow>
                     (case save_config (disk_write e) cfg' (disk w) of
                        (disk', failure) \<Rightarrow>
                          \<lparr>config = cfg', disk = disk',
                           trace = trace w @ evs @
                             (case failure of None \<Rightarrow> [] | Some err \<Rightarrow> [Log_error])\<rparr>))
              else w)
           in case dict_get (config w1) ''check_interval'' of
                Inl err \<Rightarrow> Raised err w1
              | Inr delay \<Rightarrow>
                  (case sleep delay of
                     Inl err \<Rightarrow> Raised err w1
                   | Inr ev \<Rightarrow> Returned (w1\<lparr>trace := trace w1 @ [ev]\<rparr>))))"

definition monitoring_round :: "env \<Rightarrow> json \<Rightarrow> world \<Rightarrow> world" where
  "monitoring_round e chat_id w =
     (case monitoring_round_try e chat_id w of
        Returned w' \<Rightarrow> w'
      | Raised err w' \<Rightarrow> w'\<lparr>trace := trace w' @ [Log_error, Sleep 10]\<rparr>)"

text \<open>
  The loop runs until it is cancelled. The list gives the environment of each pass made
  before that.
\<close>

fun monitoring_loop :: "env list \<Rightarrow> json \<Rightarrow> world \<Rightarrow> world" where
  "monitoring_loop [] chat_id w = w"
| "monitoring_loop (e # es) chat_id w = monitoring_loop es chat_id (monitoring_round e chat_id w)"

section \<open>Reading the store\<close>

text \<open>
  The monitored accounts as a list of entries, the case-insensitive key of an entry, and
  its watermark. An entry is in order when it is a dictionary that
  \<^verbatim>\<open>TwitterAccount(**acc)\<close> accepts and whose handle is a string; the store is in
  order when \<^verbatim>\<open>monitored_accounts\<close> is a list of such entries.
\<close>

definition accounts_of :: "config \<Rightarrow> json list" where
  "accounts_of cfg =
     (case map_of cfg ''monitored_accounts'' of
        Some (JList xs) \<Rightarrow> xs
      | _ \<Rightarrow> [])"

fun handle_of :: "json \<Rightarrow> string" where
  "handle_of (JObj kvs) =
     (case map_of kvs ''username'' of
        Some (JStr s) \<Rightarrow> lower s
      | _ \<Rightarrow> [])"
| "handle_of _ = []"

fun mark_of :: "json \<Rightarrow> json" where
  "mark_of (JObj kvs) =
     (case map_of kvs ''last_tweet_id'' of
        Some w \<Rightarrow> w
      | None \<Rightarrow> JNull)"
| "mark_of _ = JNull"

fun entry_ok :: "json \<Rightarrow> bool" where
  "entry_ok (JObj kvs) =
     (list_all (\<lambda>kv. fst kv \<in> {''username'', ''user_id'', ''last_tweet_id''}) kvs
      \<and> (case map_of kvs ''username'' of Some (JStr s) \<Rightarrow> True | _ \<Rightarrow> False)
      \<and> (case map_of kvs ''user_id'' of Some i \<Rightarrow> True | None \<Rightarrow> False))"
| "entry_ok _ = False"

definition store_ok :: "config \<Rightarrow> bool" where
  "store_ok cfg =
     (case map_of cfg ''monitored_accounts'' of
        Some (JList xs) \<Rightarrow> list_all entry_ok xs
      | _ \<Rightarrow> False)"

definition account_of :: "json \<Rightarrow> twitter_account" where
  "account_of a =
     \<lparr>username = (case getitem a ''username'' of Inr u \<Rightarrow> u | Inl e \<Rightarrow> JNull),
      user_id = (case getitem a ''user_id'' of Inr i \<Rightarrow> i | Inl e \<Rightarrow> JNull),
      last_tweet_id = mark_of a\<rparr>"

section \<open>Sequences of add and remove\<close>

text \<open>
  The two operations that the chat commands apply to the store, and a run of them from
  a given configuration. An exception ends the run.
\<close>

datatype store_op =
    Add string json
  | Remove string

fun apply_op :: "store_op \<Rightarrow> config \<Rightarrow> py_error + config" where
  "apply_op (Add n uid) cfg =
     (case add_account cfg n uid of
        Inl e \<Rightarrow> Inl e
      | Inr r \<Rightarrow> Inr (snd r))"
| "apply_op (Remove n) cfg =
     (case remove_account cfg n of
        Inl e \<Rightarrow> Inl e
      | Inr r \<Rightarrow> Inr (snd r))"

fun run_ops :: "store_op list \<Rightarrow> config \<Rightarrow> py_error + config" where
  "run_ops [] cfg = Inr cfg"
| "run_ops (x # xs) cfg =
     (case apply_op x cfg of
        Inl e \<Rightarrow> Inl e
      | Inr cfg' \<Rightarrow> run_ops xs cfg')"

text \<open>
  The listing the specification asks for, written from its words and not from the code.
  Which handles are monitored is a set of lower-case handles: an add puts the handle
  in, a remove takes it out. An add inserts an account when its handle is not in the
  set at that moment, and the account is still present at the end when no later remove
  names its handle. The listing has these accounts in the order of their adds.
\<close>

fun handles_step :: "store_op \<Rightarrow> string set \<Rightarrow> string set" where
  "handles_step (Add n uid) S = insert (lower n) S"
| "handles_step (Remove n) S = S - {lower n}"

definition handles_after :: "store_op list \<Rightarrow> string set" where
  "handles_after ops = fold handles_step ops {}"

fun removes :: "string \<Rightarrow> store_op \<Rightarrow> bool" where
  "removes k (Add n uid) = False"
| "removes k (Remove n) = (lower n = k)"

definition removed_in :: "string \<Rightarrow> store_op list \<Rightarrow> bool" where
  "removed_in k ops = list_ex (removes k) ops"

fun inserted :: "store_op list \<Rightarrow> store_op list \<Rightarrow> twitter_account list" where
  "inserted past [] = []"
| "inserted past (Add n uid # rest) =
     (if lower n \<notin> handles_after past \<and> \<not> removed_in (lower n) rest
      then [\<lparr>username = JStr n, user_id = uid, last_tweet_id = JNull\<rparr>] else [])
     @ inserted (past @ [Add n uid]) rest"
| "inserted past (Remove n # rest) = inserted (past @ [Remove n]) rest"

definition listing_by_insertion :: "store_op list \<Rightarrow> twitter_account list" where
  "listing_by_insertion ops = inserted [] ops"

section \<open>Reading the pipeline\<close>

text \<open>
  What \<^verbatim>\<open>update_last_tweet\<close> does to a store in order, as plain list functions:
  the first entry with the handle gets the new watermark. The watermark of a handle
  is the \<^verbatim>\<open>last_tweet_id\<close> of the first entry with that handle.
\<close>

fun set_mark :: "json \<Rightarrow> json \<Rightarrow> json" where
  "set_mark t (JObj kvs) = JObj (AList.update ''last_tweet_id'' t kvs)"
| "set_mark t a = a"

fun mark_first :: "string \<Rightarrow> json \<Rightarrow> json list \<Rightarrow> json list" where
  "mark_first k t [] = []"
| "mark_first k t (a # rest) =
     (if handle_of a = k then set_mark t a # rest else a # mark_first k t rest)"

definition advance :: "string \<Rightarrow> json \<Rightarrow> config \<Rightarrow> config" where
  "advance k t cfg =
     AList.update ''monitored_accounts'' (JList (mark_first k t (accounts_of cfg))) cfg"

definition watermark :: "config \<Rightarrow> string \<Rightarrow> json option" where
  "watermark cfg k = map_of (map (\<lambda>a. (handle_of a, mark_of a)) (accounts_of cfg)) k"

text \<open>
  The sort key and the id of a tweet as total functions, the tweets that have a key
  (an \<^verbatim>\<open>id\<close> that \<^verbatim>\<open>int\<close> accepts), and the tweets of the messages that
  Telegram accepted, in the order of the trace.
\<close>

definition tweet_num :: "json \<Rightarrow> int" where
  "tweet_num t = (case tweet_key t of Inr n \<Rightarrow> n | Inl e \<Rightarrow> 0)"

definition tweet_id :: "json \<Rightarrow> json" where
  "tweet_id t = (case getitem t ''id'' of Inr v \<Rightarrow> v | Inl e \<Rightarrow> JNull)"

definition has_key :: "json \<Rightarrow> bool" where
  "has_key t = (case tweet_key t of Inr n \<Rightarrow> True | Inl e \<Rightarrow> False)"

fun tweets_sent :: "event list \<Rightarrow> json list" where
  "tweets_sent [] = []"
| "tweets_sent (Telegram_message c n t # evs) = t # tweets_sent evs"
| "tweets_sent (ev # evs) = tweets_sent evs"

section \<open>Watermarks over the rounds\<close>

text \<open>
  The numeric value of a watermark as \<^verbatim>\<open>int\<close> reads it (a null watermark has none),
  the order of watermarks by value with null below everything, and ids above and below a
  watermark. A store's watermarks are in order when each is null or a string that
  \<^verbatim>\<open>int\<close> accepts.
\<close>

definition mark_value :: "json \<Rightarrow> int option" where
  "mark_value m = (case py_int m of Inr i \<Rightarrow> Some i | Inl e \<Rightarrow> None)"

definition mark_ok :: "json \<Rightarrow> bool" where
  "mark_ok m = (case m of JNull \<Rightarrow> True | JStr s \<Rightarrow> int_of_str s \<noteq> None | _ \<Rightarrow> False)"

definition marks_ok :: "config \<Rightarrow> bool" where
  "marks_ok cfg = list_all (\<lambda>a. mark_ok (mark_of a)) (accounts_of cfg)"

definition mark :: "config \<Rightarrow> string \<Rightarrow> json" where
  "mark cfg k = (case watermark cfg k of Some m \<Rightarrow> m | None \<Rightarrow> JNull)"

definition mark_le :: "json \<Rightarrow> json \<Rightarrow> bool" where
  "mark_le m m' =
     (case mark_value m of
        None \<Rightarrow> True
      | Some i \<Rightarrow> (case mark_value m' of None \<Rightarrow> False | Some j \<Rightarrow> i \<le> j))"

definition above :: "json \<Rightarrow> int \<Rightarrow> bool" where
  "above m i = (case mark_value m of None \<Rightarrow> True | Some j \<Rightarrow> j < i)"

definition below :: "json \<Rightarrow> int \<Rightarrow> bool" where
  "below m i = (case mark_value m of None \<Rightarrow> False | Some j \<Rightarrow> i \<le> j)"

text \<open>
  A post is newer than the \<^verbatim>\<open>since_id\<close> of a request when its id is a string with
  a numeric value, above the value of the \<^verbatim>\<open>since_id\<close> if one was sent. A feed
  answers with newer posts only when every list of tweets it returns, to any request,
  consists of such posts; it never repeats an id when the ids of each list are pairwise
  different by value.
\<close>

definition post_num :: "json \<Rightarrow> int option" where
  "post_num t = (case getitem t ''id'' of Inr (JStr s) \<Rightarrow> int_of_str s | _ \<Rightarrow> None)"

definition newer :: "json option \<Rightarrow> json \<Rightarrow> bool" where
  "newer since t =
     (case post_num t of
        None \<Rightarrow> False
      | Some i \<Rightarrow> (case since of None \<Rightarrow> True | Some w \<Rightarrow> above w i))"

definition answer_posts :: "http_outcome \<Rightarrow> json list" where
  "answer_posts r =
     (case r of
        Response status (Some data) \<Rightarrow>
          if status = 200 then
            (case get_method data ''data'' (JList []) of
               Inr (JList ts) \<Rightarrow> ts
             | _ \<Rightarrow> [])
          else []
      | _ \<Rightarrow> [])"

definition feed_newer :: "env \<Rightarrow> bool" where
  "feed_newer e = (\<forall>uid since. list_all (newer since) (answer_posts (http e uid since)))"

definition feed_distinct :: "env \<Rightarrow> bool" where
  "feed_distinct e = (\<forall>uid since. distinct (map tweet_num (answer_posts (http e uid since))))"

text \<open>The tweets delivered for a handle, in the order of the trace.\<close>

fun delivered :: "string \<Rightarrow> event list \<Rightarrow> json list" where
  "delivered k [] = []"
| "delivered k (Telegram_message c n t # evs) =
     (if lower_method n = Inr k then t # delivered k evs else delivered k evs)"
| "delivered k (ev # evs) = delivered k evs"

text \<open>
  What a stretch of the run keeps: the store and its watermarks stay in order, the
  handles stay, no watermark goes down, and the ids delivered for a handle go up from
  above the old watermark to at most the new one (without repetition when asked).
\<close>

definition pass_ok :: "bool \<Rightarrow> config \<Rightarrow> config \<Rightarrow> event list \<Rightarrow> bool" where
  "pass_ok strict cfg cfg' evs =
     (store_ok cfg' \<and> marks_ok cfg'
      \<and> map handle_of (accounts_of cfg') = map handle_of (accounts_of cfg)
      \<and> (\<forall>k. mark_le (mark cfg k) (mark cfg' k)
             \<and> sorted (map tweet_num (delivered k evs))
             \<and> (strict \<longrightarrow> distinct (map tweet_num (delivered k evs)))
             \<and> (\<forall>t\<in>set (delivered k evs). above (mark cfg k) (tweet_num t)
                                             \<and> below (mark cfg' k) (tweet_num t))))"

section \<open>The example of the specification\<close>

text \<open>
  One account with watermark 2 and a feed that holds the posts 5, 3 and 9 in this order
  and answers every request with those of them that are newer than the request's
  \<^verbatim>\<open>since_id\<close>. Telegram accepts every message, or it rejects the message for
  post 5. A third feed holds the post 5 twice.
\<close>

definition example_tweet :: "string \<Rightarrow> json" where
  "example_tweet i = JObj [(''id'', JStr i), (''text'', JStr ''hello'')]"

definition example_store :: config where
  "example_store =
     [(''monitored_accounts'',
       JList [JObj [(''username'', JStr ''NASA''), (''user_id'', JStr ''11''),
                    (''last_tweet_id'', JStr ''2'')]]),
      (''check_interval'', JInt 60)]"


definition example_world :: world where
  "example_world = \<lparr>config = example_store, disk = None, trace = []\<rparr>"

definition listening_feed :: "json list \<Rightarrow> json \<Rightarrow> json option \<Rightarrow> http_outcome" where
  "listening_feed posts uid since =
     Response 200 (Some (JObj [(''data'', JList (filter (newer since) posts))]))"

definition replaying :: env where
  "replaying =
     \<lparr>http = listening_feed [example_tweet ''5'', example_tweet ''3'', example_tweet ''9''],
      telegram = (\<lambda>c n t. True), disk_write = Write_ok\<rparr>"


definition repeating :: env where
  "repeating =
     \<lparr>http = listening_feed [example_tweet ''5'', example_tweet ''5''],
      telegram = (\<lambda>c n t. True), disk_write = Write_ok\<rparr>"

section \<open>Facts about the store operations\<close>

lemma entry_okE:
  assumes "entry_ok a"
  obtains kvs s i where "a = JObj kvs" "map_of kvs ''username'' = Some (JStr s)"
    "map_of kvs ''user_id'' = Some i"
    "list_all (\<lambda>kv. fst kv \<in> {''username'', ''user_id'', ''last_tweet_id''}) kvs"
  using assms by (cases a) (auto split: option.splits json.splits)

lemma same_handle_ok: "entry_ok a \<Longrightarrow> same_handle (JStr n) a = Inr (handle_of a = lower n)"
  by (erule entry_okE) (simp add: same_handle_def dict_get_def)

lemma other_handle_ok: "entry_ok a \<Longrightarrow> other_handle (JStr n) a = Inr (handle_of a \<noteq> lower n)"
  by (simp add: other_handle_def same_handle_ok)

lemma py_any_ok:
  "list_all entry_ok xs \<Longrightarrow>
   py_any (same_handle (JStr n)) xs = Inr (lower n \<in> set (map handle_of xs))"
  by (induction xs) (auto simp: same_handle_ok)

lemma py_filter_ok:
  "list_all entry_ok xs \<Longrightarrow>
   py_filter (other_handle (JStr n)) xs = Inr (filter (\<lambda>a. handle_of a \<noteq> lower n) xs)"
  by (induction xs) (auto simp: other_handle_ok)

lemma store_okE:
  assumes "store_ok cfg"
  obtains xs where "map_of cfg ''monitored_accounts'' = Some (JList xs)"
    "list_all entry_ok xs" "accounts_of cfg = xs"
  using assms by (auto simp: store_ok_def accounts_of_def split: option.splits json.splits)

lemma length_filter_less_iff:
  "(length (filter P xs) < length xs) = (\<exists>x\<in>set xs. \<not> P x)"
  by (induction xs) (auto simp: less_Suc_eq_le)

lemma add_account_ok:
  assumes "store_ok cfg"
  shows "add_account cfg n uid =
           Inr (if lower n \<in> set (map handle_of (accounts_of cfg)) then (False, cfg)
                else (True, AList.update ''monitored_accounts''
                              (JList (accounts_of cfg @ [new_account n uid])) cfg))"
  using assms by (elim store_okE) (simp add: add_account_def dict_get_def py_any_ok)

lemma remove_account_ok:
  assumes "store_ok cfg"
  shows "remove_account cfg n =
           Inr (lower n \<in> set (map handle_of (accounts_of cfg)),
                AList.update ''monitored_accounts''
                  (JList (filter (\<lambda>a. handle_of a \<noteq> lower n) (accounts_of cfg))) cfg)"
proof -
  from assms obtain xs where xs: "map_of cfg ''monitored_accounts'' = Some (JList xs)"
    "list_all entry_ok xs" "accounts_of cfg = xs"
    by (rule store_okE)
  have "(length (filter (\<lambda>a. handle_of a \<noteq> lower n) xs) < length xs)
          = (lower n \<in> set (map handle_of xs))"
    by (force simp: length_filter_less_iff)
  with xs show ?thesis
    by (simp add: remove_account_def dict_get_def py_filter_ok)
qed

lemma accounts_of_update [simp]:
  "accounts_of (AList.update ''monitored_accounts'' (JList xs) cfg) = xs"
  by (simp add: accounts_of_def update_conv')

lemma store_ok_update [simp]:
  "store_ok (AList.update ''monitored_accounts'' (JList xs) cfg) = list_all entry_ok xs"
  by (simp add: store_ok_def update_conv')

lemma entry_ok_new [simp]: "entry_ok (new_account n uid)"
  by (simp add: new_account_def)

lemma handle_of_new [simp]: "handle_of (new_account n uid) = lower n"
  by (simp add: new_account_def)

section \<open>Loading and saving the configuration\<close>

lemma map_of_dict_merge:
  "distinct (map fst d2) \<Longrightarrow>
   map_of (dict_merge d1 d2) k = (case map_of d2 k of Some v \<Rightarrow> Some v | None \<Rightarrow> map_of d1 k)"
proof (induction d2 arbitrary: d1)
  case Nil
  then show ?case by (simp add: dict_merge_def)
next
  case (Cons kv d2)
  have "map_of d2 (fst kv) = None"
    using Cons.prems by (simp add: map_of_eq_None_iff)
  moreover have "map_of (dict_merge (AList.update (fst kv) (snd kv) d1) d2) k
      = (case map_of d2 k of Some v \<Rightarrow> Some v
         | None \<Rightarrow> map_of (AList.update (fst kv) (snd kv) d1) k)"
    using Cons.prems by (intro Cons.IH) simp
  ultimately show ?case
    by (cases kv) (auto simp: dict_merge_def update_conv' split: option.splits)
qed

text \<open>
  C8. Loading never fails: a missing file, a file that cannot be opened, a file that
  does not parse and a file that parses to anything but a dictionary all give the
  default configuration, whose account list is empty and whose check interval is 60;
  any other file gives the defaults overlaid with the file's dictionary.
\<close>

theorem load_config_falls_back:
  "load_config Missing = default_config
   \<and> load_config Unreadable = default_config
   \<and> load_config Malformed = default_config
   \<and> load_config (Parsed JNull) = default_config
   \<and> load_config (Parsed (JBool b)) = default_config
   \<and> load_config (Parsed (JInt i)) = default_config
   \<and> load_config (Parsed (JStr s)) = default_config
   \<and> load_config (Parsed (JList xs)) = default_config
   \<and> load_config (Parsed (JObj kvs)) = dict_merge default_config kvs
   \<and> get_accounts default_config = Inr []
   \<and> dict_get default_config ''check_interval'' = Inr (JInt 60)"
  by (simp add: load_config_def default_config_def get_accounts_def dict_get_def)

theorem load_config_falls_back_witness:
  "get_accounts (load_config Malformed) = Inr []
   \<and> dict_get (load_config Malformed) ''check_interval'' = Inr (JInt 60)
   \<and> get_accounts (load_config (Parsed (JList [JInt 1]))) = Inr []
   \<and> dict_get (load_config Missing) ''check_interval'' = Inr (JInt 60)"
  using load_config_falls_back [of undefined undefined undefined "[JInt 1]" undefined]
  by simp

text \<open>
  C9. Saving reads the configuration and does not change it, and a successful save
  leaves the serialised configuration as the file content whatever was there before: a
  second save of the same configuration leaves the same content as the first.
\<close>

theorem save_config_idempotent:
  "fst (save_config Write_ok cfg (fst (save_config Write_ok cfg disk0)))
     = fst (save_config Write_ok cfg disk0)
   \<and> save_config Write_ok cfg disk0 = (Some (dumps (JObj cfg)), None)"
  by (simp add: save_config_def)

theorem save_config_idempotent_witness:
  "fst (save_config Write_ok default_config (fst (save_config Write_ok default_config None)))
     = Some (dumps (JObj default_config))"
proof -
  have again: "fst (save_config Write_ok default_config (fst (save_config Write_ok default_config None)))
      = fst (save_config Write_ok default_config None)"
    and first: "save_config Write_ok default_config None = (Some (dumps (JObj default_config)), None)"
    using save_config_idempotent [of default_config None] by blast+
  from again show ?thesis
    by (simp only: first fst_conv)
qed

text \<open>
  C10. A file that parses to a dictionary is laid key by key over the defaults: a key of
  the file has the file's value, any other key has its default.
\<close>

theorem load_config_merges_keys:
  assumes "distinct (map fst kvs)"
  shows "map_of (load_config (Parsed (JObj kvs))) k
           = (case map_of kvs k of Some v \<Rightarrow> Some v | None \<Rightarrow> map_of default_config k)"
  using assms by (simp add: load_config_def map_of_dict_merge)

theorem load_config_merges_keys_witness:
  "map_of (load_config (Parsed (JObj [(''check_interval'', JInt 30)]))) ''check_interval''
     = Some (JInt 30)
   \<and> map_of (load_config (Parsed (JObj [(''check_interval'', JInt 30)]))) ''monitored_accounts''
     = Some (JList [])"
  using load_config_merges_keys [of "[(''check_interval'', JInt 30)]" "''check_interval''"]
    load_config_merges_keys [of "[(''check_interval'', JInt 30)]" "''monitored_accounts''"]
  by (simp add: default_config_def)

section \<open>Failures of the feed\<close>





section \<open>Listing the accounts\<close>

lemma unpack_account_ok: "entry_ok a \<Longrightarrow> unpack_account a = Inr (account_of a)"
  by (erule entry_okE) (auto simp: account_of_def dict_get_def split: option.splits)

lemma py_map_unpack_ok:
  "list_all entry_ok xs \<Longrightarrow> py_map unpack_account xs = Inr (map account_of xs)"
  by (induction xs) (simp_all add: unpack_account_ok)

lemma get_accounts_ok: "store_ok cfg \<Longrightarrow> get_accounts cfg = Inr (map account_of (accounts_of cfg))"
  by (erule store_okE) (simp add: get_accounts_def dict_get_def py_map_unpack_ok)

lemma account_of_new [simp]:
  "account_of (new_account n uid) = \<lparr>username = JStr n, user_id = uid, last_tweet_id = JNull\<rparr>"
  by (simp add: account_of_def new_account_def dict_get_def)

lemma username_account_of: "entry_ok a \<Longrightarrow> lower_method (username (account_of a)) = Inr (handle_of a)"
  by (erule entry_okE) (simp add: account_of_def dict_get_def)

lemma apply_op_ok:
  assumes "store_ok cfg"
  shows "apply_op x cfg = Inr (AList.update ''monitored_accounts''
            (JList (case x of
                      Add n uid \<Rightarrow> if lower n \<in> set (map handle_of (accounts_of cfg)) then accounts_of cfg
                                    else accounts_of cfg @ [new_account n uid]
                    | Remove n \<Rightarrow> filter (\<lambda>a. handle_of a \<noteq> lower n) (accounts_of cfg))) cfg)"
proof (cases x)
  case (Add n uid)
  from assms obtain xs where xs: "map_of cfg ''monitored_accounts'' = Some (JList xs)" "accounts_of cfg = xs"
    by (rule store_okE)
  have "AList.update ''monitored_accounts'' (JList xs) cfg = cfg"
    using xs(1) by (simp add: update_triv)
  with Add xs assms show ?thesis by (simp add: add_account_ok)
next
  case (Remove n)
  with assms show ?thesis by (simp add: remove_account_ok)
qed


section \<open>Sequences of add and remove: the listing\<close>

lemma handles_after_snoc [simp]: "handles_after (past @ [x]) = handles_step x (handles_after past)"
  by (simp add: handles_after_def)

lemma removed_in_simps [simp]:
  "removed_in k [] = False"
  "removed_in k (Add n uid # rest) = removed_in k rest"
  "removed_in k (Remove n # rest) = (lower n = k \<or> removed_in k rest)"
  by (simp_all add: removed_in_def)

lemma run_ops_ok:
  assumes "store_ok cfg" "handle_of ` set (accounts_of cfg) = handles_after past"
    "distinct (map handle_of (accounts_of cfg))"
  shows "\<exists>cfg'. run_ops future cfg = Inr cfg' \<and> store_ok cfg'
           \<and> distinct (map handle_of (accounts_of cfg'))
           \<and> map account_of (accounts_of cfg')
               = map account_of (filter (\<lambda>a. \<not> removed_in (handle_of a) future) (accounts_of cfg))
                 @ inserted past future"
  using assms
proof (induction future arbitrary: past cfg)
  case Nil
  then show ?case by simp
next
  case (Cons x future)
  let ?xs = "accounts_of cfg"
  from Cons.prems(1) have ok: "list_all entry_ok ?xs"
    by (auto elim: store_okE)
  show ?case
  proof (cases x)
    case (Add n uid)
    let ?xs1 = "if lower n \<in> set (map handle_of ?xs) then ?xs else ?xs @ [new_account n uid]"
    let ?cfg1 = "AList.update ''monitored_accounts'' (JList ?xs1) cfg"
    have step: "apply_op x cfg = Inr ?cfg1"
      using apply_op_ok [OF Cons.prems(1), of x] Add by simp
    have ok1: "store_ok ?cfg1" using ok by simp
    have h1: "handle_of ` set (accounts_of ?cfg1) = handles_after (past @ [x])"
      using Cons.prems(2) Add by auto
    have d1: "distinct (map handle_of (accounts_of ?cfg1))"
      using Cons.prems(3) by auto
    from Cons.IH [OF ok1 h1 d1] obtain cfg' where
      run: "run_ops future ?cfg1 = Inr cfg'" and ok': "store_ok cfg'"
      and d': "distinct (map handle_of (accounts_of cfg'))"
      and l': "map account_of (accounts_of cfg')
               = map account_of (filter (\<lambda>a. \<not> removed_in (handle_of a) future) (accounts_of ?cfg1))
                 @ inserted (past @ [x]) future"
      by blast
    have "map account_of (accounts_of cfg')
            = map account_of (filter (\<lambda>a. \<not> removed_in (handle_of a) (x # future)) ?xs)
              @ inserted past (x # future)"
      using l' Add Cons.prems(2) by auto
    with run ok' d' step show ?thesis by simp
  next
    case (Remove n)
    let ?xs1 = "filter (\<lambda>a. handle_of a \<noteq> lower n) ?xs"
    let ?cfg1 = "AList.update ''monitored_accounts'' (JList ?xs1) cfg"
    have step: "apply_op x cfg = Inr ?cfg1"
      using apply_op_ok [OF Cons.prems(1), of x] Remove by simp
    have ok1: "store_ok ?cfg1" using ok by (simp add: list_all_iff)
    have h1: "handle_of ` set (accounts_of ?cfg1) = handles_after (past @ [x])"
      using Cons.prems(2) Remove by auto
    have d1: "distinct (map handle_of (accounts_of ?cfg1))"
      using Cons.prems(3) by (simp add: distinct_map_filter)
    from Cons.IH [OF ok1 h1 d1] obtain cfg' where
      run: "run_ops future ?cfg1 = Inr cfg'" and ok': "store_ok cfg'"
      and d': "distinct (map handle_of (accounts_of cfg'))"
      and l': "map account_of (accounts_of cfg')
               = map account_of (filter (\<lambda>a. \<not> removed_in (handle_of a) future) (accounts_of ?cfg1))
                 @ inserted (past @ [x]) future"
      by blast
    have "filter (\<lambda>a. \<not> removed_in (handle_of a) future) ?xs1
            = filter (\<lambda>a. \<not> removed_in (handle_of a) (x # future)) ?xs"
      using Remove by (auto intro: filter_cong)
    then have "map account_of (accounts_of cfg')
            = map account_of (filter (\<lambda>a. \<not> removed_in (handle_of a) (x # future)) ?xs)
              @ inserted past (x # future)"
      using l' Remove by (simp)
    with run ok' d' step show ?thesis by simp
  qed
qed

lemma store_ok_default [simp]: "store_ok default_config"
  by (simp add: store_ok_def default_config_def)

lemma accounts_of_default [simp]: "accounts_of default_config = []"
  by (simp add: accounts_of_def default_config_def)

lemma map_lower_username:
  "list_all entry_ok xs \<Longrightarrow>
   map (\<lambda>a. lower_method (username a)) (map account_of xs) = map (\<lambda>a. Inr (handle_of a)) xs"
  by (induction xs) (simp_all add: username_account_of)

text \<open>
  C4. From the empty store, any sequence of adds and removes runs without an exception,
  the accounts listed afterwards have pairwise different lower-case handles, and the
  listing is the still-present accounts in the order of their insertion.
\<close>

theorem add_remove_keeps_unique_insertion_order:
  "\<exists>cfg accs. run_ops ops default_config = Inr cfg
      \<and> get_accounts cfg = Inr accs
      \<and> distinct (map (\<lambda>a. lower_method (username a)) accs)
      \<and> accs = listing_by_insertion ops"
proof -
  have "handle_of ` set (accounts_of default_config) = handles_after []"
    by (simp add: handles_after_def)
  from run_ops_ok [OF store_ok_default this, of ops] obtain cfg where
    run: "run_ops ops default_config = Inr cfg" and ok: "store_ok cfg"
    and d: "distinct (map handle_of (accounts_of cfg))"
    and l: "map account_of (accounts_of cfg) = inserted [] ops"
    by auto
  from ok have all: "list_all entry_ok (accounts_of cfg)"
    by (auto elim: store_okE)
  have "distinct (map (\<lambda>a. lower_method (username a)) (map account_of (accounts_of cfg)))"
    unfolding map_lower_username [OF all] using d
    by (simp add: distinct_map inj_on_def)
  with run ok l show ?thesis
    by (simp add: get_accounts_ok listing_by_insertion_def)
qed

theorem add_remove_keeps_unique_insertion_order_witness:
  "\<exists>cfg. run_ops [Add ''Foo'' (JStr ''1''), Add ''bar'' (JStr ''2''), Add ''FOO'' (JStr ''3''),
                  Remove ''fOo'', Add ''Baz'' (JStr ''4''), Add ''foo'' (JStr ''5'')] default_config
            = Inr cfg
      \<and> get_accounts cfg =
          Inr [\<lparr>username = JStr ''bar'', user_id = JStr ''2'', last_tweet_id = JNull\<rparr>,
               \<lparr>username = JStr ''Baz'', user_id = JStr ''4'', last_tweet_id = JNull\<rparr>,
               \<lparr>username = JStr ''foo'', user_id = JStr ''5'', last_tweet_id = JNull\<rparr>]"
proof -
  have "listing_by_insertion [Add ''Foo'' (JStr ''1''), Add ''bar'' (JStr ''2''),
          Add ''FOO'' (JStr ''3''), Remove ''fOo'', Add ''Baz'' (JStr ''4''), Add ''foo'' (JStr ''5'')]
        = [\<lparr>username = JStr ''bar'', user_id = JStr ''2'', last_tweet_id = JNull\<rparr>,
           \<lparr>username = JStr ''Baz'', user_id = JStr ''4'', last_tweet_id = JNull\<rparr>,
           \<lparr>username = JStr ''foo'', user_id = JStr ''5'', last_tweet_id = JNull\<rparr>]"
    by code_simp
  with add_remove_keeps_unique_insertion_order
    [of "[Add ''Foo'' (JStr ''1''), Add ''bar'' (JStr ''2''), Add ''FOO'' (JStr ''3''),
          Remove ''fOo'', Add ''Baz'' (JStr ''4''), Add ''foo'' (JStr ''5'')]"]
  show ?thesis by auto
qed

text \<open>
  C5. On a store in order, \<^verbatim>\<open>add_account\<close> returns false and leaves the
  configuration as it is when an entry has the handle in lower case; otherwise it
  returns true and the new entry, with the handle and the account id as given and a
  null watermark, stands at the end of the list, after the entries that were there.
\<close>

theorem add_account_spec:
  assumes "store_ok cfg"
  shows "if \<exists>acc\<in>set (accounts_of cfg). handle_of acc = lower name
         then add_account cfg name uid = Inr (False, cfg)
         else add_account cfg name uid =
                Inr (True, AList.update ''monitored_accounts''
                             (JList (accounts_of cfg
                                @ [JObj [(''username'', JStr name), (''user_id'', uid),
                                         (''last_tweet_id'', JNull)]])) cfg)
              \<and> (\<exists>accs. get_accounts cfg = Inr accs
                    \<and> get_accounts (AList.update ''monitored_accounts''
                             (JList (accounts_of cfg
                                @ [JObj [(''username'', JStr name), (''user_id'', uid),
                                         (''last_tweet_id'', JNull)]])) cfg)
                      = Inr (accs @ [\<lparr>username = JStr name, user_id = uid,
                                       last_tweet_id = JNull\<rparr>]))"
proof -
  from assms have all: "list_all entry_ok (accounts_of cfg)"
    by (auto elim: store_okE)
  have new: "JObj [(''username'', JStr name), (''user_id'', uid), (''last_tweet_id'', JNull)]
      = new_account name uid"
    by (simp add: new_account_def)
  have "get_accounts (AList.update ''monitored_accounts''
          (JList (accounts_of cfg @ [new_account name uid])) cfg)
        = Inr (map account_of (accounts_of cfg)
               @ [\<lparr>username = JStr name, user_id = uid, last_tweet_id = JNull\<rparr>])"
    using all by (simp add: get_accounts_ok)
  moreover have "(\<exists>acc\<in>set (accounts_of cfg). handle_of acc = lower name)
      = (lower name \<in> set (map handle_of (accounts_of cfg)))"
    by force
  ultimately show ?thesis
    unfolding new using assms by (simp add: add_account_ok get_accounts_ok)
qed

theorem add_account_spec_witness:
  "add_account default_config ''Foo'' (JStr ''1'') =
     Inr (True, [(''monitored_accounts'',
                  JList [JObj [(''username'', JStr ''Foo''), (''user_id'', JStr ''1''),
                               (''last_tweet_id'', JNull)]]),
                 (''check_interval'', JInt 60)])
   \<and> add_account [(''monitored_accounts'',
                    JList [JObj [(''username'', JStr ''Foo''), (''user_id'', JStr ''1''),
                                 (''last_tweet_id'', JNull)]]),
                   (''check_interval'', JInt 60)] ''FOO'' (JStr ''2'') =
     Inr (False, [(''monitored_accounts'',
                   JList [JObj [(''username'', JStr ''Foo''), (''user_id'', JStr ''1''),
                                (''last_tweet_id'', JNull)]]),
                  (''check_interval'', JInt 60)])"
proof -
  let ?one = "[(''monitored_accounts'',
                JList [JObj [(''username'', JStr ''Foo''), (''user_id'', JStr ''1''),
                             (''last_tweet_id'', JNull)]]),
               (''check_interval'', JInt 60)]"
  have first: "add_account default_config ''Foo'' (JStr ''1'') = Inr (True, ?one)"
    using add_account_spec [OF store_ok_default, of "''Foo''" "JStr ''1''"]
    by (simp add: default_config_def accounts_of_def)
  have ok: "store_ok ?one"
    by (simp add: store_ok_def)
  have same: "lower ''Foo'' = lower ''FOO''"
    by code_simp
  have second: "add_account ?one ''FOO'' (JStr ''2'') = Inr (False, ?one)"
    using add_account_spec [OF ok, of "''FOO''" "JStr ''2''"]
    by (simp add: accounts_of_def same)
  from first second show ?thesis by simp
qed

section \<open>The delivery pipeline on a store in order\<close>

lemma tweets_sent_append [simp]: "tweets_sent (xs @ ys) = tweets_sent xs @ tweets_sent ys"
  by (induction xs rule: tweets_sent.induct) simp_all

lemma list_all_keys_update:
  "list_all (\<lambda>kv. P (fst kv)) (AList.update k v al) = (P k \<and> list_all (\<lambda>kv. P (fst kv)) al)"
  by (induction al) auto

lemma entry_ok_set_mark: "entry_ok a \<Longrightarrow> entry_ok (set_mark t a)"
  by (erule entry_okE)
    (simp add: update_conv'
       list_all_keys_update [where P = "\<lambda>k. k = ''username'' \<or> k = ''user_id'' \<or> k = ''last_tweet_id''"])

lemma handle_of_set_mark [simp]: "handle_of (set_mark t a) = handle_of a"
  by (cases a) (simp_all add: update_conv')

lemma mark_of_set_mark: "entry_ok a \<Longrightarrow> mark_of (set_mark t a) = t"
  by (erule entry_okE) (simp add: update_conv')

lemma update_first_ok:
  "list_all entry_ok xs \<Longrightarrow> update_first (JStr n) t xs = Inr (mark_first (lower n) t xs)"
proof (induction xs)
  case Nil
  then show ?case by simp
next
  case (Cons a xs)
  then have a: "entry_ok a" by simp
  then obtain kvs where "a = JObj kvs" by (auto elim: entry_okE)
  with Cons a show ?case by (simp add: same_handle_ok)
qed

lemma update_last_tweet_ok:
  "store_ok cfg \<Longrightarrow> update_last_tweet cfg (JStr n) t = Inr (advance (lower n) t cfg)"
  by (erule store_okE) (simp add: update_last_tweet_def dict_get_def update_first_ok advance_def)

lemma entry_ok_mark_first: "list_all entry_ok xs \<Longrightarrow> list_all entry_ok (mark_first k t xs)"
  by (induction xs) (simp_all add: entry_ok_set_mark)

lemma handles_mark_first [simp]: "map handle_of (mark_first k t xs) = map handle_of xs"
  by (induction xs) simp_all

lemma store_ok_advance: "store_ok cfg \<Longrightarrow> store_ok (advance k t cfg)"
  by (erule store_okE) (simp add: advance_def entry_ok_mark_first)

lemma handles_advance [simp]: "map handle_of (accounts_of (advance k t cfg)) = map handle_of (accounts_of cfg)"
  by (simp add: advance_def)

lemma marks_mark_first:
  "list_all entry_ok xs \<Longrightarrow>
   map_of (map (\<lambda>a. (handle_of a, mark_of a)) (mark_first k t xs)) k'
     = (if k' = k \<and> k \<in> set (map handle_of xs) then Some t
        else map_of (map (\<lambda>a. (handle_of a, mark_of a)) xs) k')"
  by (induction xs) (auto simp: mark_of_set_mark)

lemma watermark_advance:
  "store_ok cfg \<Longrightarrow>
   watermark (advance k t cfg) k'
     = (if k' = k \<and> k \<in> set (map handle_of (accounts_of cfg)) then Some t else watermark cfg k')"
  by (erule store_okE) (simp add: watermark_def advance_def marks_mark_first)

lemma has_key_tweet: 
  assumes "has_key t"
  obtains kvs v n where "t = JObj kvs" "getitem t ''id'' = Inr v" "py_int v = Inr n" "tweet_id t = v" "tweet_num t = n"
  using assms by (cases t) (auto simp: has_key_def tweet_key_def tweet_id_def tweet_num_def split: sum.splits)

lemma send_has_key:
  "has_key t \<Longrightarrow> send_tweet_to_telegram tg t n chat = (if tg chat n t then [Telegram_message chat n t] else [Log_error])"
  by (erule has_key_tweet) (simp add: send_tweet_to_telegram_def)


lemma check_account_loop_ok:
  assumes "store_ok cfg" "list_all has_key ts" "username a = JStr n"
  shows "check_account_loop tg a chat ts cfg =
           Returned (fold (\<lambda>t. advance (lower n) (tweet_id t)) ts cfg,
                     concat (map (\<lambda>t. send_tweet_to_telegram tg t (JStr n) chat @ [Sleep 1]) ts))"
  using assms
proof (induction ts arbitrary: cfg)
  case Nil
  then show ?case by simp
next
  case (Cons t ts)
  from Cons.prems(2) have t: "has_key t" and ts: "list_all has_key ts" by simp_all
  from t obtain v where v: "getitem t ''id'' = Inr v" "tweet_id t = v"
    by (auto elim: has_key_tweet)
  have "store_ok (advance (lower n) v cfg)"
    using Cons.prems(1) by (rule store_ok_advance)
  from Cons.IH [OF this ts Cons.prems(3)] v Cons.prems(1,3) show ?case
    by (simp add: update_last_tweet_ok Let_def)
qed


lemma py_map_keys: "list_all has_key ts \<Longrightarrow> py_map tweet_key ts = Inr (map tweet_num ts)"
  by (induction ts) (auto simp: has_key_def tweet_num_def split: sum.splits)

lemma insort_key_decorated:
  "insort_key fst (f x, x) (map (\<lambda>y. (f y, y)) ys) = map (\<lambda>y. (f y, y)) (insort_key f x ys)"
  by (induction ys) simp_all

lemma sort_key_decorated:
  "sort_key fst (map (\<lambda>y. (f y, y)) xs) = map (\<lambda>y. (f y, y)) (sort_key f xs)"
  by (induction xs) (simp_all add: insort_key_decorated)

lemma zip_decorated: "zip (map f xs) xs = map (\<lambda>y. (f y, y)) xs"
  by (induction xs) simp_all

lemma sort_method_ok:
  "list_all has_key ts \<Longrightarrow> sort_method (JList ts) = Inr (sort_key tweet_num ts)"
  by (simp add: py_map_keys zip_decorated sort_key_decorated comp_def)

lemma fold_advance_ok:
  "store_ok cfg \<Longrightarrow> store_ok (fold (\<lambda>t. advance k (f t)) ts cfg)"
  by (induction ts arbitrary: cfg) (simp_all add: store_ok_advance)

lemma fold_advance_handles [simp]:
  "map handle_of (accounts_of (fold (\<lambda>t. advance k (f t)) ts cfg)) = map handle_of (accounts_of cfg)"
  by (induction ts arbitrary: cfg) simp_all

lemma fold_advance_watermark:
  "store_ok cfg \<Longrightarrow>
   watermark (fold (\<lambda>t. advance k (f t)) ts cfg) k'
     = (if k' = k \<and> k \<in> set (map handle_of (accounts_of cfg)) \<and> ts \<noteq> [] then Some (f (last ts))
        else watermark cfg k')"
proof (induction ts arbitrary: cfg rule: rev_induct)
  case Nil
  then show ?case by simp
next
  case (snoc t ts)
  then show ?case
    by (simp add: watermark_advance fold_advance_ok)
qed



lemma check_account_ok:
  assumes ok: "store_ok cfg"
    and name: "username a = JStr n"
    and fetched: "get_recent_tweets (http e) (user_id a) (last_tweet_id a) = (JList ts, evs0)"
    and keys: "list_all has_key ts"
  shows "check_account e a chat cfg =
           Returned (fold (\<lambda>t. advance (lower n) (tweet_id t)) (sort_key tweet_num ts) cfg,
                     evs0 @ concat (map (\<lambda>t. send_tweet_to_telegram (telegram e) t (JStr n) chat @ [Sleep 1])
                                       (sort_key tweet_num ts)))"
proof (cases "ts = []")
  case True
  with fetched show ?thesis
    by (simp add: check_account_def check_account_try_def)
next
  case False
  have sorted_keys: "list_all has_key (sort_key tweet_num ts)"
    using keys by (simp add: list_all_iff)
  show ?thesis
    using False fetched
    by (simp add: check_account_def check_account_try_def sort_method_ok [OF keys]
        check_account_loop_ok [OF ok sorted_keys name] del: sort_method.simps)
qed


lemma sort_key_Nil_iff [simp]: "(sort_key f xs = []) = (xs = [])"
  by (metis length_sort length_0_conv)




lemma example_store_ok: "store_ok example_store"
  by (simp add: store_ok_def example_store_def)











section \<open>Watermarks never go down\<close>

lemma delivered_append [simp]: "delivered k (xs @ ys) = delivered k xs @ delivered k ys"
  by (induction k xs rule: delivered.induct) simp_all

lemma mark_le_refl [simp]: "mark_le m m"
  by (simp add: mark_le_def split: option.splits)

lemma mark_le_trans: "mark_le a b \<Longrightarrow> mark_le b c \<Longrightarrow> mark_le a c"
  by (auto simp: mark_le_def split: option.splits)

lemma above_mono: "mark_le a b \<Longrightarrow> above b i \<Longrightarrow> above a i"
  by (auto simp: mark_le_def above_def split: option.splits)

lemma below_mono: "mark_le b c \<Longrightarrow> below b i \<Longrightarrow> below c i"
  by (auto simp: mark_le_def below_def split: option.splits)

lemma below_above: "below b i \<Longrightarrow> above b j \<Longrightarrow> i < j"
  by (auto simp: above_def below_def split: option.splits)

lemma pass_ok_trans:
  assumes "pass_ok s cfg1 cfg2 evs1" "pass_ok s cfg2 cfg3 evs2"
  shows "pass_ok s cfg1 cfg3 (evs1 @ evs2)"
proof -
  have "mark_le (mark cfg1 k) (mark cfg3 k)
      \<and> sorted (map tweet_num (delivered k (evs1 @ evs2)))
      \<and> (s \<longrightarrow> distinct (map tweet_num (delivered k (evs1 @ evs2))))
      \<and> (\<forall>t\<in>set (delivered k (evs1 @ evs2)). above (mark cfg1 k) (tweet_num t)
                                             \<and> below (mark cfg3 k) (tweet_num t))" for k
  proof -
    from assms have le12: "mark_le (mark cfg1 k) (mark cfg2 k)"
      and le23: "mark_le (mark cfg2 k) (mark cfg3 k)"
      and s1: "sorted (map tweet_num (delivered k evs1))"
      and s2: "sorted (map tweet_num (delivered k evs2))"
      and d1: "s \<longrightarrow> distinct (map tweet_num (delivered k evs1))"
      and d2: "s \<longrightarrow> distinct (map tweet_num (delivered k evs2))"
      and b1: "\<forall>t\<in>set (delivered k evs1). above (mark cfg1 k) (tweet_num t) \<and> below (mark cfg2 k) (tweet_num t)"
      and b2: "\<forall>t\<in>set (delivered k evs2). above (mark cfg2 k) (tweet_num t) \<and> below (mark cfg3 k) (tweet_num t)"
      by (simp_all add: pass_ok_def)
    have lt: "tweet_num x < tweet_num y"
      if "x \<in> set (delivered k evs1)" "y \<in> set (delivered k evs2)" for x y
      using that b1 b2 by (blast intro: below_above)
    have "sorted (map tweet_num (delivered k evs1) @ map tweet_num (delivered k evs2))"
      using s1 s2 lt by (force simp: sorted_append)
    moreover have "s \<longrightarrow> distinct (map tweet_num (delivered k evs1) @ map tweet_num (delivered k evs2))"
      using d1 d2 lt by force
    moreover have "\<forall>t\<in>set (delivered k evs1) \<union> set (delivered k evs2).
        above (mark cfg1 k) (tweet_num t) \<and> below (mark cfg3 k) (tweet_num t)"
      using b1 b2 le12 le23 by (blast intro: above_mono below_mono)
    ultimately show ?thesis
      using le12 le23 by (simp add: mark_le_trans)
  qed
  with assms show ?thesis
    by (simp add: pass_ok_def)
qed

lemma pass_ok_idle:
  assumes "store_ok cfg" "marks_ok cfg" "\<And>k. delivered k evs = []"
  shows "pass_ok s cfg cfg evs"
  using assms by (simp add: pass_ok_def)


lemma int_of_str_Nil [simp]: "int_of_str [] = None"
  by (simp add: int_of_str_def strip_def)

lemma mark_ok_cases:
  assumes "mark_ok m"
  obtains "m = JNull" | s i where "m = JStr s" "int_of_str s = Some i" "s \<noteq> []"
proof (cases m)
  case (JStr s)
  with assms obtain i where i: "int_of_str s = Some i"
    by (auto simp: mark_ok_def)
  then have "s \<noteq> []" by auto
  with JStr i show ?thesis by (rule that(2))
qed (use assms that(1) in \<open>auto simp: mark_ok_def\<close>)

lemma since_of_mark:
  "mark_ok m \<Longrightarrow> (if truthy m then Some m else None) = (if m = JNull then None else Some m)"
  by (erule mark_ok_cases) auto

lemma mark_value_simps [simp]:
  "mark_value JNull = None"
  "mark_value (JStr s) = int_of_str s"
  by (simp_all add: mark_value_def split: option.splits)

lemma fetched_posts:
  assumes "get_recent_tweets (http e) uid m = (JList ts, evs0)"
  shows "ts = answer_posts (http e uid (if truthy m then Some m else None))"
  using assms
  by (auto simp: get_recent_tweets_def answer_posts_def Let_def
      split: http_outcome.splits option.splits sum.splits if_splits json.splits)

lemma fetched_other:
  assumes "get_recent_tweets f uid m = (v, evs0)"
  shows "delivered k evs0 = []"
  using assms
  by (auto simp: get_recent_tweets_def Let_def
      split: http_outcome.splits option.splits sum.splits if_splits)

lemma newer_post:
  assumes "newer since t"
  obtains s i where "getitem t ''id'' = Inr (JStr s)" "int_of_str s = Some i"
  using assms by (auto simp: newer_def post_num_def split: option.splits sum.splits json.splits)

lemma newer_has_key: "newer since t \<Longrightarrow> has_key t"
  by (erule newer_post) (simp add: has_key_def tweet_key_def)

lemma newer_mark_ok: "newer since t \<Longrightarrow> mark_ok (tweet_id t)"
  by (erule newer_post) (simp add: tweet_id_def mark_ok_def)

lemma newer_value: "newer since t \<Longrightarrow> mark_value (tweet_id t) = Some (tweet_num t)"
  by (erule newer_post) (simp add: tweet_id_def tweet_num_def tweet_key_def)

lemma newer_above: "newer (Some w) t \<Longrightarrow> above w (tweet_num t)"
  by (auto simp: newer_def post_num_def tweet_num_def tweet_key_def
      split: option.splits sum.splits json.splits)

lemma mark_ok_mark_first:
  "list_all entry_ok xs \<Longrightarrow> list_all (\<lambda>a. mark_ok (mark_of a)) xs \<Longrightarrow> mark_ok t \<Longrightarrow>
   list_all (\<lambda>a. mark_ok (mark_of a)) (mark_first k t xs)"
  by (induction xs) (simp_all add: mark_of_set_mark)

lemma marks_ok_advance:
  "store_ok cfg \<Longrightarrow> marks_ok cfg \<Longrightarrow> mark_ok t \<Longrightarrow> marks_ok (advance k t cfg)"
  by (erule store_okE) (simp add: marks_ok_def advance_def mark_ok_mark_first)

lemma marks_ok_fold_advance:
  "store_ok cfg \<Longrightarrow> marks_ok cfg \<Longrightarrow> list_all (\<lambda>t. mark_ok (f t)) ts \<Longrightarrow>
   marks_ok (fold (\<lambda>t. advance k (f t)) ts cfg)"
  by (induction ts arbitrary: cfg) (simp_all add: marks_ok_advance store_ok_advance)

lemma mark_fold_advance:
  "store_ok cfg \<Longrightarrow>
   mark (fold (\<lambda>t. advance k (f t)) ts cfg) k'
     = (if k' = k \<and> k \<in> set (map handle_of (accounts_of cfg)) \<and> ts \<noteq> [] then f (last ts)
        else mark cfg k')"
  by (simp add: mark_def fold_advance_watermark)

lemma delivered_send:
  "has_key t \<Longrightarrow>
   delivered k (send_tweet_to_telegram tg t (JStr n) chat)
     = (if k = lower n \<and> tg chat (JStr n) t then [t] else [])"
  by (auto simp: send_has_key)

lemma delivered_loop:
  "list_all has_key ts \<Longrightarrow>
   delivered k (concat (map (\<lambda>t. send_tweet_to_telegram tg t (JStr n) chat @ [Sleep 1]) ts))
     = (if k = lower n then filter (tg chat (JStr n)) ts else [])"
  by (induction ts) (simp_all add: delivered_send)


lemma mark_ok_mark: "marks_ok cfg \<Longrightarrow> mark_ok (mark cfg k)"
proof -
  assume marks: "marks_ok cfg"
  show ?thesis
  proof (cases "watermark cfg k")
    case None
    then show ?thesis by (simp add: mark_def mark_ok_def)
  next
    case (Some m)
    then have "(k, m) \<in> set (map (\<lambda>a. (handle_of a, mark_of a)) (accounts_of cfg))"
      unfolding watermark_def by (rule map_of_SomeD)
    with marks have "mark_ok m"
      by (auto simp: marks_ok_def list_all_iff)
    with Some show ?thesis by (simp add: mark_def)
  qed
qed

lemma sorted_le_last:
  "sorted (map f xs) \<Longrightarrow> x \<in> set xs \<Longrightarrow> f x \<le> f (last xs)"
  by (induction xs) (auto split: if_splits)

lemma check_account_idle:
  assumes "get_recent_tweets (http e) (user_id a) (last_tweet_id a) = (v, evs0)"
    and "\<And>ts. v \<noteq> JList ts"
  shows "\<exists>evs. check_account e a chat cfg = Returned (cfg, evs) \<and> (\<forall>k. delivered k evs = [])"
proof -
  from assms(2) have "sort_method v = Inl AttributeError"
    by (cases v) auto
  with assms(1) fetched_other [OF assms(1)] show ?thesis
    by (simp add: check_account_def check_account_try_def)
qed

lemma check_account_pass:
  assumes ok: "store_ok cfg" and marks: "marks_ok cfg"
    and name: "username a = JStr n"
    and member: "lower n \<in> set (map handle_of (accounts_of cfg))"
    and snap: "mark cfg (lower n) = last_tweet_id a"
    and feed: "feed_newer e" and strict: "s \<longrightarrow> feed_distinct e"
  shows "\<exists>cfg' evs. check_account e a chat cfg = Returned (cfg', evs)
           \<and> pass_ok s cfg cfg' evs
           \<and> (\<forall>k. k \<noteq> lower n \<longrightarrow> mark cfg' k = mark cfg k)"
proof -
  let ?m = "last_tweet_id a"
  obtain v evs0 where fetched: "get_recent_tweets (http e) (user_id a) ?m = (v, evs0)"
    by (cases "get_recent_tweets (http e) (user_id a) ?m") simp
  show ?thesis
  proof (cases "\<exists>ts. v = JList ts")
    case False
    with check_account_idle [OF fetched, of chat cfg] ok marks show ?thesis
      by (auto intro!: pass_ok_idle)
  next
    case True
    then obtain ts where v: "v = JList ts" by blast
    let ?since = "if truthy ?m then Some ?m else None"
    let ?sorted = "sort_key tweet_num ts"
    let ?k = "lower n"
    let ?cfg' = "fold (\<lambda>t. advance ?k (tweet_id t)) ?sorted cfg"
    let ?loop = "concat (map (\<lambda>t. send_tweet_to_telegram (telegram e) t (JStr n) chat @ [Sleep 1]) ?sorted)"
    have ts: "ts = answer_posts (http e (user_id a) ?since)"
      using fetched v by (simp add: fetched_posts)
    with feed have newer: "list_all (newer ?since) ts"
      by (simp add: feed_newer_def)
    then have keys: "list_all has_key ts"
      by (auto simp: list_all_iff intro: newer_has_key)
    then have sorted_keys: "list_all has_key ?sorted"
      by (simp add: list_all_iff)
    have result: "check_account e a chat cfg = Returned (?cfg', evs0 @ ?loop)"
      using fetched v by (simp add: check_account_ok [OF ok name _ keys])
    have m_ok: "mark_ok ?m"
      using mark_ok_mark [OF marks, of ?k] snap by simp
    have above: "above (mark cfg ?k) (tweet_num t)" if "t \<in> set ts" for t
    proof (cases "?m = JNull")
      case True
      with snap show ?thesis by (simp add: above_def)
    next
      case False
      with m_ok have "?since = Some ?m"
        by (simp add: since_of_mark)
      with newer that have "newer (Some ?m) t"
        by (auto simp: list_all_iff)
      then show ?thesis using snap by (simp add: newer_above)
    qed
    from newer have nums: "mark_value (tweet_id t) = Some (tweet_num t)" if "t \<in> set ts" for t
      using that by (auto simp: list_all_iff intro: newer_value)
    have ok': "store_ok ?cfg'"
      using ok by (rule fold_advance_ok)
    have marks': "marks_ok ?cfg'"
      using ok marks newer
      by (intro marks_ok_fold_advance) (auto simp: list_all_iff intro: newer_mark_ok)
    have mark': "mark ?cfg' k = (if k = ?k \<and> ts \<noteq> [] then tweet_id (last ?sorted) else mark cfg k)" for k
      using member by (simp add: mark_fold_advance [OF ok])
    have last_in: "last ?sorted \<in> set ts" if "ts \<noteq> []"
      using that last_in_set [of ?sorted] by simp
    have le: "mark_le (mark cfg k) (mark ?cfg' k)" for k
    proof (cases "k = ?k \<and> ts \<noteq> []")
      case False
      then show ?thesis by (auto simp: mark')
    next
      case True
      with above [OF last_in] nums [OF last_in] show ?thesis
        by (auto simp: mark' mark_le_def above_def split: option.splits)
    qed
    have delivered: "delivered k (evs0 @ ?loop)
        = (if k = ?k then filter (telegram e chat (JStr n)) ?sorted else [])" for k
      using fetched_other [OF fetched] by (simp add: delivered_loop [OF sorted_keys])
    have sorted: "sorted (map tweet_num (filter (telegram e chat (JStr n)) ?sorted))"
      by (rule sorted_filter) (rule sorted_sort_key)
    have distinct: "distinct (map tweet_num (filter (telegram e chat (JStr n)) ?sorted))"
      if "s"
    proof -
      from that strict ts have "distinct (map tweet_num ts)"
        by (simp add: feed_distinct_def)
      then have "distinct (map tweet_num ?sorted)"
        by (simp add: distinct_map)
      then show ?thesis by (rule distinct_map_filter)
    qed
    have below: "below (mark ?cfg' ?k) (tweet_num t)" if "t \<in> set ts" for t
    proof -
      from that have nonempty: "ts \<noteq> []" by auto
      have "tweet_num t \<le> tweet_num (last ?sorted)"
        using that by (intro sorted_le_last) (simp_all add: sorted_sort_key)
      with nonempty nums [OF last_in] show ?thesis
        by (simp add: mark' below_def)
    qed
    have "pass_ok s cfg ?cfg' (evs0 @ ?loop)"
      unfolding pass_ok_def
      using ok' marks' le sorted distinct above below
      by (auto simp: delivered simp del: delivered_append)
    with result mark' show ?thesis by auto
  qed
qed


lemma account_of_entry:
  assumes "entry_ok x"
  obtains n where "username (account_of x) = JStr n" "lower n = handle_of x"
    "last_tweet_id (account_of x) = mark_of x"
  using assms by (elim entry_okE) (simp add: account_of_def dict_get_def)

lemma gather_pass:
  assumes ok: "store_ok cfg" and marks: "marks_ok cfg"
    and feed: "feed_newer e" and strict: "s \<longrightarrow> feed_distinct e"
    and entries: "list_all entry_ok xs" and unique: "distinct (map handle_of xs)"
    and snap: "\<forall>x\<in>set xs. handle_of x \<in> set (map handle_of (accounts_of cfg))
                 \<and> mark cfg (handle_of x) = mark_of x"
  shows "pass_ok s cfg (fst (gather e chat (map account_of xs) cfg))
           (snd (gather e chat (map account_of xs) cfg))"
  using ok marks entries unique snap
proof (induction xs arbitrary: cfg)
  case Nil
  then show ?case by (simp add: pass_ok_idle)
next
  case (Cons x xs)
  from Cons.prems(3) have "entry_ok x" by simp
  then obtain n where n: "username (account_of x) = JStr n" "lower n = handle_of x"
    "last_tweet_id (account_of x) = mark_of x"
    by (rule account_of_entry)
  from Cons.prems(5) n have member: "lower n \<in> set (map handle_of (accounts_of cfg))"
    and snap_x: "mark cfg (lower n) = last_tweet_id (account_of x)"
    by simp_all
  from check_account_pass [OF Cons.prems(1,2) n(1) member snap_x feed strict, of chat]
  obtain cfg1 evs1 where
    checked: "check_account e (account_of x) chat cfg = Returned (cfg1, evs1)"
    and pass1: "pass_ok s cfg cfg1 evs1"
    and others: "\<forall>k. k \<noteq> lower n \<longrightarrow> mark cfg1 k = mark cfg k"
    by blast
  from pass1 have ok1: "store_ok cfg1" and marks1: "marks_ok cfg1"
    and handles1: "map handle_of (accounts_of cfg1) = map handle_of (accounts_of cfg)"
    by (simp_all add: pass_ok_def)
  have snap1: "\<forall>y\<in>set xs. handle_of y \<in> set (map handle_of (accounts_of cfg1))
                 \<and> mark cfg1 (handle_of y) = mark_of y"
  proof
    fix y assume y: "y \<in> set xs"
    then have "handle_of y \<in> set (map handle_of xs)" by simp
    moreover have "handle_of x \<notin> set (map handle_of xs)"
      using Cons.prems(4) by simp
    ultimately have "handle_of y \<noteq> lower n"
      using n(2) by metis
    with others have "mark cfg1 (handle_of y) = mark cfg (handle_of y)" by simp
    with Cons.prems(5) y handles1
    show "handle_of y \<in> set (map handle_of (accounts_of cfg1))
            \<and> mark cfg1 (handle_of y) = mark_of y"
      by simp
  qed
  from Cons.prems(3,4) have "list_all entry_ok xs" "distinct (map handle_of xs)"
    by simp_all
  from Cons.IH [OF ok1 marks1 this snap1]
  have "pass_ok s cfg1 (fst (gather e chat (map account_of xs) cfg1))
          (snd (gather e chat (map account_of xs) cfg1))" .
  with pass1 have "pass_ok s cfg (fst (gather e chat (map account_of xs) cfg1))
      (evs1 @ snd (gather e chat (map account_of xs) cfg1))"
    by (rule pass_ok_trans)
  then show ?case
    by (auto simp: checked split: prod.split)
qed

lemma mark_of_listed:
  assumes "distinct (map handle_of (accounts_of cfg))" "x \<in> set (accounts_of cfg)"
  shows "mark cfg (handle_of x) = mark_of x"
proof -
  let ?ps = "map (\<lambda>a. (handle_of a, mark_of a)) (accounts_of cfg)"
  have "distinct (map fst ?ps)"
    using assms(1) by (simp add: comp_def)
  moreover have "(handle_of x, mark_of x) \<in> set ?ps"
    using assms(2) by auto
  ultimately have "map_of ?ps (handle_of x) = Some (mark_of x)"
    by simp
  then show ?thesis by (simp add: mark_def watermark_def)
qed

lemma sleep_quiet: "sleep d = Inr ev \<Longrightarrow> delivered k [ev] = []"
  by (cases d) (auto split: if_splits)

lemma monitoring_round_pass:
  assumes ok: "store_ok (config w)" and marks: "marks_ok (config w)"
    and unique: "distinct (map handle_of (accounts_of (config w)))"
    and feed: "feed_newer e" and strict: "s \<longrightarrow> feed_distinct e"
  shows "\<exists>new. trace (monitoring_round e chat w) = trace w @ new
           \<and> pass_ok s (config w) (config (monitoring_round e chat w)) new"
proof -
  let ?xs = "accounts_of (config w)"
  let ?g = "gather e chat (map account_of ?xs) (config w)"
  from ok have entries: "list_all entry_ok ?xs"
    by (auto elim: store_okE)
  have snap: "\<forall>x\<in>set ?xs. handle_of x \<in> set (map handle_of ?xs)
                \<and> mark (config w) (handle_of x) = mark_of x"
    using unique by (simp add: mark_of_listed)
  have pass: "pass_ok s (config w) (fst ?g) (snd ?g)"
    using ok marks feed strict entries unique snap by (rule gather_pass)
  have idle: "pass_ok s (config w) (config w) []"
    using ok marks by (simp add: pass_ok_idle)
  obtain d f where saved: "save_config (disk_write e) (fst ?g) (disk w) = (d, f)"
    by (cases "save_config (disk_write e) (fst ?g) (disk w)") simp
  let ?w1 = "if ?xs \<noteq> [] then \<lparr>config = fst ?g, disk = d,
                trace = trace w @ snd ?g @ (case f of None \<Rightarrow> [] | Some err \<Rightarrow> [Log_error])\<rparr>
             else w"
  have quiet: "delivered k (case f of None \<Rightarrow> [] | Some err \<Rightarrow> [Log_error]) = []" for k
    by (cases f) simp_all
  have w1: "\<exists>new. trace ?w1 = trace w @ new \<and> pass_ok s (config w) (config ?w1) new"
  proof (cases "?xs = []")
    case True
    with idle show ?thesis by simp
  next
    case False
    from pass have "pass_ok s (config w) (fst ?g)
        (snd ?g @ (case f of None \<Rightarrow> [] | Some err \<Rightarrow> [Log_error]))"
      by (simp add: pass_ok_def quiet)
    with False show ?thesis by simp
  qed
  have round: "\<exists>tail. monitoring_round e chat w = ?w1\<lparr>trace := trace ?w1 @ tail\<rparr>
                 \<and> (\<forall>k. delivered k tail = [])"
    using saved
    by (auto simp: monitoring_round_def monitoring_round_try_def get_accounts_ok [OF ok] Let_def
        sleep_quiet split: prod.splits sum.splits)
  then obtain tail where tail: "monitoring_round e chat w = ?w1\<lparr>trace := trace ?w1 @ tail\<rparr>"
    "\<forall>k. delivered k tail = []"
    by blast
  from w1 obtain new where new: "trace ?w1 = trace w @ new" "pass_ok s (config w) (config ?w1) new"
    by blast
  from new(2) tail(2) have "pass_ok s (config w) (config ?w1) (new @ tail)"
    by (simp add: pass_ok_def)
  with new(1) tail(1) show ?thesis
    by (intro exI [of _ "new @ tail"]) simp
qed

lemma monitoring_loop_pass:
  assumes "store_ok (config w)" "marks_ok (config w)"
    "distinct (map handle_of (accounts_of (config w)))"
    "list_all feed_newer es" "s \<longrightarrow> list_all feed_distinct es"
  shows "\<exists>new. trace (monitoring_loop es chat w) = trace w @ new
           \<and> pass_ok s (config w) (config (monitoring_loop es chat w)) new"
  using assms
proof (induction es arbitrary: w)
  case Nil
  then show ?case by (simp add: pass_ok_idle)
next
  case (Cons e es)
  let ?w1 = "monitoring_round e chat w"
  from Cons.prems have "feed_newer e" "s \<longrightarrow> feed_distinct e" by simp_all
  from monitoring_round_pass [OF Cons.prems(1-3) this, of chat]
  obtain new1 where new1: "trace ?w1 = trace w @ new1" "pass_ok s (config w) (config ?w1) new1"
    by blast
  from new1(2) Cons.prems(3) have inv1: "store_ok (config ?w1)" "marks_ok (config ?w1)"
    "distinct (map handle_of (accounts_of (config ?w1)))"
    by (simp_all add: pass_ok_def)
  from Cons.prems have "list_all feed_newer es" "s \<longrightarrow> list_all feed_distinct es" by simp_all
  from Cons.IH [OF inv1 this]
  obtain new2 where new2: "trace (monitoring_loop es chat ?w1) = trace ?w1 @ new2"
    "pass_ok s (config ?w1) (config (monitoring_loop es chat ?w1)) new2"
    by blast
  from new1(2) new2(2) have "pass_ok s (config w) (config (monitoring_loop es chat ?w1)) (new1 @ new2)"
    by (rule pass_ok_trans)
  with new1(1) new2(1) show ?case
    by (intro exI [of _ "new1 @ new2"]) simp
qed


lemma listed_entry:
  assumes "store_ok cfg" "get_accounts cfg = Inr accs" "a \<in> set accs"
  obtains x where "x \<in> set (accounts_of cfg)" "entry_ok x" "a = account_of x"
proof -
  from assms obtain x where x: "x \<in> set (accounts_of cfg)" "a = account_of x"
    by (auto simp: get_accounts_ok)
  from assms(1) x(1) have "entry_ok x"
    by (auto elim!: store_okE simp: list_all_iff)
  with x show ?thesis by (auto intro: that)
qed

lemma mark_after_prefix:
  assumes "store_ok cfg" "k \<in> set (map handle_of (accounts_of cfg))" "i < length ts"
  shows "mark (fold (\<lambda>t. advance k (f t)) (take (Suc i) ts) cfg) k = f (ts ! i)"
proof -
  have "take (Suc i) ts \<noteq> []"
    using assms(3) by auto
  moreover have "last (take (Suc i) ts) = ts ! i"
    using assms(3) by (simp add: take_Suc_conv_app_nth)
  ultimately show ?thesis
    using assms(2) by (simp add: mark_fold_advance [OF assms(1)] del: take_Suc_Cons)
qed

lemma loop_step_grows:
  assumes ok: "store_ok cfg" and unique: "distinct (map handle_of (accounts_of cfg))"
    and marks: "marks_ok cfg" and feed: "feed_newer e"
    and listed: "get_accounts cfg = Inr accs" "a \<in> set accs"
    and fetched: "fst (get_recent_tweets (http e) (user_id a) (last_tweet_id a)) = JList tweets"
    and j: "j < length tweets"
    and h: "lower_method (username a) = Inr h"
  shows "mark_le
           (mark (fst (finished (check_account_loop tg a chat
                                   (take j (sort_key tweet_num tweets)) cfg))) h)
           (mark (fst (finished (check_account_loop tg a chat
                                   (take (Suc j) (sort_key tweet_num tweets)) cfg))) h)"
proof -
  let ?m = "last_tweet_id a"
  let ?since = "if truthy ?m then Some ?m else None"
  let ?sorted = "sort_key tweet_num tweets"
  from ok listed obtain x where x: "x \<in> set (accounts_of cfg)" "entry_ok x" "a = account_of x"
    by (rule listed_entry)
  from x(2) obtain n where n: "username (account_of x) = JStr n" "lower n = handle_of x"
    "last_tweet_id (account_of x) = mark_of x"
    by (rule account_of_entry)
  from h n(1) x(3) have h_eq: "h = lower n" by simp
  have name: "username a = JStr n" using n(1) x(3) by simp
  have member: "lower n \<in> set (map handle_of (accounts_of cfg))"
    using x(1) n(2) by force
  have snap: "mark cfg (lower n) = ?m"
    using mark_of_listed [OF unique x(1)] n x(3) by simp
  obtain evs0 where evs0: "get_recent_tweets (http e) (user_id a) ?m = (JList tweets, evs0)"
    using fetched by (cases "get_recent_tweets (http e) (user_id a) ?m") simp
  then have "tweets = answer_posts (http e (user_id a) ?since)"
    by (rule fetched_posts)
  with feed have newer: "list_all (newer ?since) tweets"
    by (simp add: feed_newer_def)
  then have newer_sorted: "\<forall>t\<in>set ?sorted. newer ?since t"
    by (simp add: list_all_iff)
  then have keys: "list_all has_key ?sorted"
    by (auto simp: list_all_iff intro: newer_has_key)
  have j': "j < length ?sorted" using j by simp
  have post: "newer ?since (?sorted ! i)" if "i < length ?sorted" for i
  proof -
    from that have "?sorted ! i \<in> set ?sorted" by (rule nth_mem)
    with newer_sorted show ?thesis by blast
  qed
  have step: "fst (finished (check_account_loop tg a chat (take i ?sorted) cfg))
      = fold (\<lambda>t. advance (lower n) (tweet_id t)) (take i ?sorted) cfg" for i
  proof -
    have "list_all has_key (take i ?sorted)"
      using keys by (auto simp: list_all_iff dest: in_set_takeD)
    from check_account_loop_ok [OF ok this name] show ?thesis by simp
  qed
  have after: "mark (fst (finished (check_account_loop tg a chat (take (Suc j) ?sorted) cfg))) (lower n)
      = tweet_id (?sorted ! j)"
    unfolding step using ok member j' by (rule mark_after_prefix)
  have value_j: "mark_value (tweet_id (?sorted ! j)) = Some (tweet_num (?sorted ! j))"
    using post [OF j'] by (rule newer_value)
  show ?thesis
  proof (cases j)
    case 0
    have m_ok: "mark_ok ?m"
      using mark_ok_mark [OF marks, of "lower n"] snap by simp
    have "above ?m (tweet_num (?sorted ! j))"
    proof (cases "?m = JNull")
      case True
      then show ?thesis by (simp add: above_def)
    next
      case False
      with m_ok have "?since = Some ?m"
        by (simp add: since_of_mark)
      with post [OF j'] have "newer (Some ?m) (?sorted ! j)"
        by simp
      then show ?thesis by (rule newer_above)
    qed
    with value_j have "mark_le ?m (tweet_id (?sorted ! j))"
      by (auto simp: mark_le_def above_def split: option.splits)
    with 0 snap after show ?thesis
      unfolding h_eq by (simp add: step)
  next
    case (Suc i)
    with j' have i: "i < length ?sorted" by simp
    have before: "mark (fst (finished (check_account_loop tg a chat (take (Suc i) ?sorted) cfg))) (lower n)
      = tweet_id (?sorted ! i)"
      unfolding step using ok member i by (rule mark_after_prefix)
    have value_i: "mark_value (tweet_id (?sorted ! i)) = Some (tweet_num (?sorted ! i))"
      using post [OF i] by (rule newer_value)
    have "sorted (map tweet_num ?sorted)"
      by (rule sorted_sort_key)
    with Suc j' have "tweet_num (?sorted ! i) \<le> tweet_num (?sorted ! j)"
      using sorted_nth_mono [of "map tweet_num ?sorted" i j] by simp
    with value_i value_j have "mark_le (tweet_id (?sorted ! i)) (tweet_id (?sorted ! j))"
      by (simp add: mark_le_def)
    with before after Suc show ?thesis
      unfolding h_eq by simp
  qed
qed

text \<open>
  C3, amended. Take a store in order whose handles are pairwise different and whose
  watermarks are null or numeric strings, and any number of rounds in which the feed
  answers with posts newer than the \<^verbatim>\<open>since_id\<close> only. Then the store stays so,
  with the same handles; no account's watermark is lower after the rounds than before;
  the ids delivered for a handle during the rounds are in non-decreasing order and
  above the handle's watermark at the start, and in strictly increasing order when no
  answer of the feed repeats an id. Within a pass, each single advance of the watermark
  (from the state after \<open>j\<close> posts to the state after \<open>j + 1\<close>) does not lower it.
\<close>

theorem watermarks_never_decrease:
  assumes ok: "store_ok (config w)"
    and unique: "distinct (map handle_of (accounts_of (config w)))"
    and marks: "marks_ok (config w)"
    and feeds: "list_all feed_newer es"
  shows "store_ok (config (monitoring_loop es chat w))
         \<and> marks_ok (config (monitoring_loop es chat w))
         \<and> map handle_of (accounts_of (config (monitoring_loop es chat w)))
            = map handle_of (accounts_of (config w))
         \<and> (\<forall>k. mark_le (mark (config w) k) (mark (config (monitoring_loop es chat w)) k))
         \<and> (\<exists>new. trace (monitoring_loop es chat w) = trace w @ new
               \<and> (\<forall>k. sorted (map tweet_num (delivered k new))
                      \<and> (\<forall>t\<in>set (delivered k new). above (mark (config w) k) (tweet_num t))
                      \<and> (list_all feed_distinct es \<longrightarrow>
                           sorted_wrt (<) (map tweet_num (delivered k new)))))
         \<and> (\<forall>e a accs tweets j h.
               feed_newer e \<and> get_accounts (config w) = Inr accs \<and> a \<in> set accs
               \<and> fst (get_recent_tweets (http e) (user_id a) (last_tweet_id a)) = JList tweets
               \<and> j < length tweets \<and> lower_method (username a) = Inr h
               \<longrightarrow> mark_le
                     (mark (fst (finished (check_account_loop (telegram e) a chat
                                             (take j (sort_key tweet_num tweets)) (config w)))) h)
                     (mark (fst (finished (check_account_loop (telegram e) a chat
                                             (take (Suc j) (sort_key tweet_num tweets)) (config w)))) h))"
proof -
  let ?w' = "monitoring_loop es chat w"
  from monitoring_loop_pass [OF ok marks unique feeds, of "list_all feed_distinct es" chat]
  obtain new where new: "trace ?w' = trace w @ new"
    and pass: "pass_ok (list_all feed_distinct es) (config w) (config ?w') new"
    by blast
  from pass have "\<forall>k. sorted (map tweet_num (delivered k new))
      \<and> (\<forall>t\<in>set (delivered k new). above (mark (config w) k) (tweet_num t))
      \<and> (list_all feed_distinct es \<longrightarrow> sorted_wrt (<) (map tweet_num (delivered k new)))"
    by (simp add: pass_ok_def strict_sorted_iff)
  with new have trace: "\<exists>new. trace ?w' = trace w @ new
      \<and> (\<forall>k. sorted (map tweet_num (delivered k new))
             \<and> (\<forall>t\<in>set (delivered k new). above (mark (config w) k) (tweet_num t))
             \<and> (list_all feed_distinct es \<longrightarrow> sorted_wrt (<) (map tweet_num (delivered k new))))"
    by blast
  from pass have inv: "store_ok (config ?w')" "marks_ok (config ?w')"
    "map handle_of (accounts_of (config ?w')) = map handle_of (accounts_of (config w))"
    "\<forall>k. mark_le (mark (config w) k) (mark (config ?w') k)"
    by (simp_all add: pass_ok_def)
  from inv trace loop_step_grows [OF ok unique marks] show ?thesis
    by blast
qed


lemma listening_feed_newer: "list_all (newer since) (answer_posts (listening_feed posts uid since))"
  by (simp add: listening_feed_def answer_posts_def list_all_iff)

lemma replaying_newer: "feed_newer replaying"
  by (simp add: feed_newer_def replaying_def listening_feed_newer)

lemma repeating_newer: "feed_newer repeating"
  by (simp add: feed_newer_def repeating_def listening_feed_newer)

lemma replaying_distinct: "feed_distinct replaying"
proof -
  have "distinct (map tweet_num [example_tweet ''5'', example_tweet ''3'', example_tweet ''9''])"
    by code_simp
  then have "distinct (map tweet_num (filter (newer since)
      [example_tweet ''5'', example_tweet ''3'', example_tweet ''9'']))" for since
    by (rule distinct_map_filter)
  then show ?thesis
    by (simp add: feed_distinct_def replaying_def listening_feed_def answer_posts_def)
qed

lemma example_mark: "int_of_str ''2'' = Some 2"
  by code_simp

lemma example_world_ok:
  "store_ok (config example_world)"
  "distinct (map handle_of (accounts_of (config example_world)))"
  "marks_ok (config example_world)"
  by (simp_all add: example_world_def example_store_ok)
    (simp_all add: example_store_def accounts_of_def marks_ok_def mark_ok_def example_mark)

theorem watermarks_never_decrease_witness:
  "mark_le (mark (config example_world) ''nasa'')
     (mark (config (monitoring_loop [replaying, replaying] (JStr ''chat'') example_world)) ''nasa'')
   \<and> mark (config (monitoring_loop [replaying, replaying] (JStr ''chat'') example_world)) ''nasa''
       = JStr ''9''
   \<and> map tweet_num (delivered ''nasa''
        (trace (monitoring_loop [replaying, replaying] (JStr ''chat'') example_world))) = [3, 5, 9]
   \<and> sorted_wrt (<) (map tweet_num (delivered ''nasa''
        (trace (monitoring_loop [replaying, replaying] (JStr ''chat'') example_world))))"
proof -
  let ?w' = "monitoring_loop [replaying, replaying] (JStr ''chat'') example_world"
  have feeds: "list_all feed_newer [replaying, replaying]"
    by (simp add: replaying_newer)
  have strict: "list_all feed_distinct [replaying, replaying]"
    by (simp add: replaying_distinct)
  have start: "trace example_world = []"
    by (simp add: example_world_def)
  from watermarks_never_decrease [OF example_world_ok feeds, of "JStr ''chat''"] strict start
  have "mark_le (mark (config example_world) ''nasa'') (mark (config ?w') ''nasa'')"
    and "sorted_wrt (<) (map tweet_num (delivered ''nasa'' (trace ?w')))"
    by auto
  moreover have "mark (config ?w') ''nasa'' = JStr ''9''"
    by code_simp
  moreover have "map tweet_num (delivered ''nasa'' (trace ?w')) = [3, 5, 9]"
    by code_simp
  ultimately show ?thesis by blast
qed

text \<open>
  C3, as stated, fails: a feed that lists the post 5 twice answers with newer posts
  only, yet the ids delivered are 5, 5, which is not strictly increasing.
\<close>

theorem repeated_post_is_delivered_twice:
  "feed_newer repeating
   \<and> map tweet_num (delivered ''nasa''
        (trace (monitoring_loop [repeating] (JStr ''chat'') example_world))) = [5, 5]
   \<and> \<not> sorted_wrt (<) (map tweet_num (delivered ''nasa''
        (trace (monitoring_loop [repeating] (JStr ''chat'') example_world))))"
proof -
  have "map tweet_num (delivered ''nasa''
        (trace (monitoring_loop [repeating] (JStr ''chat'') example_world))) = [5, 5]"
    by code_simp
  with repeating_newer show ?thesis by simp
qed

end
